theory Spec2Isabelle
  imports
    Main
    "HOL-Library.Word"
    "HOL-Library.AList"
    "HOL-Library.Char_ord"
    "HOL-Library.List_Lexorder"
    "HOL-Library.Signed_Division"
begin

section \<open>Shared vocabulary\<close>

text \<open>
  Go's \<^verbatim>\<open>error\<close> values that the package creates or passes on.
  \<^verbatim>\<open>ErrShutdown\<close> is the package variable of the client (compared by
  identity, hence a constructor of its own), \<^verbatim>\<open>EOF\<close> is \<^verbatim>\<open>io.EOF\<close>, and
  \<^verbatim>\<open>ErrorString s\<close> is what \<^verbatim>\<open>errors.New(s)\<close> and \<^verbatim>\<open>fmt.Errorf(s)\<close> build.
\<close>

datatype error = ErrShutdown | EOF | ErrorString string

fun Error_of :: "error \<Rightarrow> string" where
  "Error_of ErrShutdown = ''connection is shut down''"
| "Error_of EOF = ''EOF''"
| "Error_of (ErrorString s) = s"

text \<open>A call either returns or panics (\<^verbatim>\<open>log.Panic\<close>, an index out of range).\<close>

datatype 'a outcome = Panics string | Returns 'a

subsection \<open>Library functions of package \<^verbatim>\<open>strings\<close>\<close>

text \<open>
  \<^verbatim>\<open>strings.Split(s, sep)\<close> for a separator of one byte, which is how both call
  sites use it (\<^verbatim>\<open>"@"\<close> and \<^verbatim>\<open>","\<close>): the pieces between the occurrences
  of the separator, so always one piece more than there are occurrences.
\<close>

fun Split :: "string \<Rightarrow> char \<Rightarrow> string list" where
  "Split [] sep = [[]]"
| "Split (c # cs) sep =
     (if c = sep then [] # Split cs sep
      else (c # hd (Split cs sep)) # tl (Split cs sep))"

text \<open>\<^verbatim>\<open>strings.Join(elems, sep)\<close>.\<close>

fun Join :: "string list \<Rightarrow> string \<Rightarrow> string" where
  "Join [] sep = []"
| "Join [x] sep = x"
| "Join (x # y # ys) sep = x @ sep @ Join (y # ys) sep"

text \<open>
  \<^verbatim>\<open>strings.TrimSpace\<close> removes the leading and the trailing white space
  of a string, as \<^verbatim>\<open>unicode.IsSpace\<close> defines it, on the UTF-8 bytes of the
  string: the six one-byte spaces of Go's \<^verbatim>\<open>asciiSpace\<close> table (tab, line
  feed, vertical tab, form feed, carriage return, space), U+0085 and U+00A0
  (two bytes), and U+1680, U+2000 to U+200A, U+2028, U+2029, U+202F, U+205F
  and U+3000 (three bytes). A byte that does not start or end such an
  encoding stops the trimming, as an invalid or any other rune does.
\<close>

definition asciiSpace :: "char \<Rightarrow> bool" where
  "asciiSpace c \<longleftrightarrow> c \<in> {CHR 0x09, CHR 0x0A, CHR 0x0B, CHR 0x0C, CHR 0x0D, CHR 0x20}"

definition isSpace2 :: "char \<Rightarrow> char \<Rightarrow> bool" where
  "isSpace2 c d \<longleftrightarrow> c = CHR 0xC2 \<and> (d = CHR 0x85 \<or> d = CHR 0xA0)"

definition isSpace3 :: "char \<Rightarrow> char \<Rightarrow> char \<Rightarrow> bool" where
  "isSpace3 c d e \<longleftrightarrow>
     c = CHR 0xE1 \<and> d = CHR 0x9A \<and> e = CHR 0x80 \<or>
     c = CHR 0xE2 \<and> d = CHR 0x80 \<and>
       (CHR 0x80 \<le> e \<and> e \<le> CHR 0x8A \<or> e = CHR 0xA8 \<or> e = CHR 0xA9 \<or> e = CHR 0xAF) \<or>
     c = CHR 0xE2 \<and> d = CHR 0x81 \<and> e = CHR 0x9F \<or>
     c = CHR 0xE3 \<and> d = CHR 0x80 \<and> e = CHR 0x80"

text \<open>
  The number of bytes of the white space rune that a string starts with, and
  of the one that it ends with (\<open>trailing_space\<close> takes the string
  reversed, last byte first); 0 when there is none.
\<close>

fun leading_space :: "string \<Rightarrow> nat" where
  "leading_space (c # d # e # s) =
     (if asciiSpace c then 1 else if isSpace2 c d then 2 else if isSpace3 c d e then 3 else 0)"
| "leading_space [c, d] = (if asciiSpace c then 1 else if isSpace2 c d then 2 else 0)"
| "leading_space [c] = (if asciiSpace c then 1 else 0)"
| "leading_space [] = 0"

fun trailing_space :: "string \<Rightarrow> nat" where
  "trailing_space (e # d # c # s) =
     (if asciiSpace e then 1 else if isSpace2 d e then 2 else if isSpace3 c d e then 3 else 0)"
| "trailing_space [e, d] = (if asciiSpace e then 1 else if isSpace2 d e then 2 else 0)"
| "trailing_space [e] = (if asciiSpace e then 1 else 0)"
| "trailing_space [] = 0"

function TrimLeftSpace :: "string \<Rightarrow> string" where
  "TrimLeftSpace s =
     (if leading_space s = 0 then s else TrimLeftSpace (drop (leading_space s) s))"
  by pat_completeness auto
termination
proof (relation "measure length")
  show "wf (measure length)" by simp
next
  fix s :: string
  assume "leading_space s \<noteq> 0"
  then have "s \<noteq> []" by (cases s) simp_all
  with \<open>leading_space s \<noteq> 0\<close> show "(drop (leading_space s) s, s) \<in> measure length"
    by simp
qed

declare TrimLeftSpace.simps [simp del]

function TrimRightReversed :: "string \<Rightarrow> string" where
  "TrimRightReversed r =
     (if trailing_space r = 0 then r else TrimRightReversed (drop (trailing_space r) r))"
  by pat_completeness auto
termination
proof (relation "measure length")
  show "wf (measure length)" by simp
next
  fix r :: string
  assume "trailing_space r \<noteq> 0"
  then have "r \<noteq> []" by (cases r) simp_all
  with \<open>trailing_space r \<noteq> 0\<close> show "(drop (trailing_space r) r, r) \<in> measure length"
    by simp
qed

declare TrimRightReversed.simps [simp del]

definition TrimSpace :: "string \<Rightarrow> string" where
  "TrimSpace s = rev (TrimRightReversed (rev (TrimLeftSpace s)))"

section \<open>Client: XDial\<close>

text \<open>
  \<^verbatim>\<open>XDial\<close> either fails on the format of the address or hands over to
  \<^verbatim>\<open>DialHTTP\<close> or \<^verbatim>\<open>Dial\<close>. The two dialers are parameters: they take the
  network, the address, the options and the state of the network \<open>'w\<close> (in
  which every connection attempt leaves its mark) and return a client or an
  error with the new state.
\<close>

type_synonym ('o, 'c, 'w) dialer =
  "string \<Rightarrow> string \<Rightarrow> 'o list \<Rightarrow> 'w \<Rightarrow> (error + 'c) \<times> 'w"

definition wrong_format :: "string \<Rightarrow> error" where
  "wrong_format rpcAddr =
     ErrorString (''rpc client err: wrong format '' @ [CHR 0x27] @ rpcAddr @ [CHR 0x27]
                  @ '', expect protocol@addr'')"

definition XDial ::
  "('o, 'c, 'w) dialer \<Rightarrow> ('o, 'c, 'w) dialer \<Rightarrow> string \<Rightarrow> 'o list \<Rightarrow> 'w \<Rightarrow> (error + 'c) \<times> 'w"
where
  "XDial DialHTTP Dial rpcAddr opts w =
     (let parts = Split rpcAddr (CHR ''@'') in
      if length parts \<noteq> 2 then (Inl (wrong_format rpcAddr), w)
      else
        let protocol = parts ! 0; addr = parts ! 1 in
        if protocol = ''http'' then DialHTTP ''tcp'' addr opts w
        else Dial protocol addr opts w)"

section \<open>Discovery\<close>

text \<open>
  The load-balancing modes of \<^verbatim>\<open>MultiServersDiscovery.Get\<close>; \<^verbatim>\<open>OtherSelect\<close>
  stands for every value of the mode's type that the switch does not name.
\<close>

datatype SelectMode = RandomSelect | RoundRobinSelect | OtherSelect

text \<open>
  The random source and the mutex of the struct are left out: the random
  number a call draws is an argument, and calls are taken one at a time.
\<close>

record MultiServersDiscovery =
  servers :: "string list"
  index :: int

text \<open>
  \<^verbatim>\<open>index\<close> is a Go \<^verbatim>\<open>int\<close>, taken as 64 bits wide: an addition wraps
  around, and \<^verbatim>\<open>%\<close> truncates towards zero (\<open>smod\<close>).
\<close>

definition wrap_int :: "int \<Rightarrow> int" where
  "wrap_int x = (x + 2 ^ 63) mod 2 ^ 64 - 2 ^ 63"

text \<open>
  \<^verbatim>\<open>Get\<close> of \<^verbatim>\<open>MultiServersDiscovery\<close>, as \<^verbatim>\<open>README.md\<close> quotes it.
  \<open>rnd\<close> is what \<^verbatim>\<open>d.r.Intn(n)\<close> returns. Indexing the slice below zero
  panics.
\<close>

definition MultiServersDiscovery_Get ::
  "'a MultiServersDiscovery_scheme \<Rightarrow> SelectMode \<Rightarrow> nat \<Rightarrow>
     (error + string) outcome \<times> 'a MultiServersDiscovery_scheme"
where
  "MultiServersDiscovery_Get d mode rnd =
     (let n = length (servers d) in
      if n = 0 then (Returns (Inl (ErrorString ''rpc discovery: no available servers'')), d)
      else
        (case mode of
           RandomSelect \<Rightarrow> (Returns (Inr (servers d ! (rnd mod n))), d)
         | RoundRobinSelect \<Rightarrow>
             (let i = index d smod int n in
              if i < 0 then (Panics ''index out of range'', d)
              else (Returns (Inr (servers d ! nat i)),
                    d\<lparr>index := wrap_int (index d + 1) smod int n\<rparr>))
         | OtherSelect \<Rightarrow>
             (Returns (Inl (ErrorString ''rpc discovery: not supported select mode'')), d)))"

text \<open>
  \<open>m\<close> consecutive calls of \<^verbatim>\<open>Get(RoundRobinSelect)\<close> and the addresses they
  return, in order; \<open>None\<close> when one of the calls panics or returns an error.
\<close>

fun consecutive_Gets ::
  "nat \<Rightarrow> 'a MultiServersDiscovery_scheme \<Rightarrow> (string list \<times> 'a MultiServersDiscovery_scheme) option"
where
  "consecutive_Gets 0 d = Some ([], d)"
| "consecutive_Gets (Suc m) d =
     (case MultiServersDiscovery_Get d RoundRobinSelect 0 of
        (Returns (Inr s), d') \<Rightarrow>
          (case consecutive_Gets m d' of
             Some (ss, d'') \<Rightarrow> Some (s # ss, d'')
           | None \<Rightarrow> None)
      | _ \<Rightarrow> None)"

text \<open>
  \<^verbatim>\<open>ZRegistryDiscovery\<close> embeds \<^verbatim>\<open>*MultiServersDiscovery\<close>. Instants and
  durations are integers (nanoseconds); the zero \<^verbatim>\<open>time.Time\<close> is 0.
\<close>

record ZRegistryDiscovery = MultiServersDiscovery +
  registry :: string
  timeout :: int
  lastUpdate :: int

text \<open>The loop of \<^verbatim>\<open>Refresh\<close> that appends the trimmed, non-empty pieces.\<close>

fun trimmed_servers :: "string list \<Rightarrow> string list \<Rightarrow> string list" where
  "trimmed_servers [] acc = acc"
| "trimmed_servers (server # rest) acc =
     (if TrimSpace server \<noteq> [] then trimmed_servers rest (acc @ [TrimSpace server])
      else trimmed_servers rest acc)"

text \<open>\<^verbatim>\<open>Header.Get\<close>: the value of a header, the empty string when it is absent.\<close>

definition Header_Get :: "string option \<Rightarrow> string" where
  "Header_Get v = (case v of None \<Rightarrow> [] | Some s \<Rightarrow> s)"

text \<open>
  \<^verbatim>\<open>Refresh\<close>. \<open>now\<close> is the clock reading of the staleness test,
  \<open>resp\<close> the outcome of \<^verbatim>\<open>http.Get(d.registry)\<close> should it be issued (an
  error, or the response's \<^verbatim>\<open>X-Zrpc-Servers\<close> header if it has one), and
  \<open>now'\<close> the clock reading stored in \<^verbatim>\<open>lastUpdate\<close>. The third component
  of the result counts the GET requests sent to the registry.
\<close>

definition Refresh ::
  "ZRegistryDiscovery \<Rightarrow> int \<Rightarrow> (error + string option) \<Rightarrow> int \<Rightarrow>
     error option \<times> ZRegistryDiscovery \<times> nat"
where
  "Refresh d now resp now' =
     (if lastUpdate d + timeout d > now then (None, d, 0)
      else
        (case resp of
           Inl err \<Rightarrow> (Some err, d, 1)
         | Inr hdr \<Rightarrow>
             (let servers' = Split (Header_Get hdr) (CHR '','') in
              (None, d\<lparr>servers := trimmed_servers servers' [], lastUpdate := now'\<rparr>, 1))))"

text \<open>\<^verbatim>\<open>Get\<close> of \<^verbatim>\<open>ZRegistryDiscovery\<close>: refresh first, then select.\<close>

definition ZRegistryDiscovery_Get ::
  "ZRegistryDiscovery \<Rightarrow> SelectMode \<Rightarrow> int \<Rightarrow> (error + string option) \<Rightarrow> int \<Rightarrow> nat \<Rightarrow>
     (error + string) outcome \<times> ZRegistryDiscovery \<times> nat"
where
  "ZRegistryDiscovery_Get d mode now resp now' rnd =
     (case Refresh d now resp now' of
        (Some err, d', gets) \<Rightarrow> (Returns (Inl err), d', gets)
      | (None, d', gets) \<Rightarrow>
          (let (res, d'') = MultiServersDiscovery_Get d' mode rnd in (res, d'', gets)))"

text \<open>
  \<^verbatim>\<open>NewZRegistryDiscovery\<close>; \<open>index0\<close> is the index that
  \<^verbatim>\<open>NewMultiServerDiscovery\<close> starts with, and 10000000000 is
  \<^verbatim>\<open>defaultUpdateTimeout\<close>, ten seconds.
\<close>

definition NewZRegistryDiscovery :: "string \<Rightarrow> int \<Rightarrow> int \<Rightarrow> ZRegistryDiscovery" where
  "NewZRegistryDiscovery registerAddr timeout0 index0 =
     \<lparr>servers = [], index = index0, registry = registerAddr,
      timeout = (if timeout0 = 0 then 10000000000 else timeout0),
      lastUpdate = 0\<rparr>"

text \<open>
  A registry that cannot be reached, a discovery whose list is stale, and a
  header value whose pieces carry one-byte spaces, U+00A0 and U+3000.
\<close>

definition spaced_header :: string where
  "spaced_header =
     '' s1:80'' @ [CHR 0xC2, CHR 0xA0] @ '', s2:80 ,'' @ [CHR 0xE3, CHR 0x80, CHR 0x80]"


definition registry_down :: "error + string option" where
  "registry_down = Inl (ErrorString ''dial tcp: connection refused'')"

definition stale_discovery :: ZRegistryDiscovery where
  "stale_discovery = NewZRegistryDiscovery ''http://localhost:9999/_zrpc_/registry'' 10 0"

section \<open>Registry\<close>

text \<open>
  The registry keeps, for every address, the instant of its last heartbeat
  (\<^verbatim>\<open>start\<close>). The Go map \<^verbatim>\<open>servers\<close> is an association list with
  distinct keys; its order stands for the order in which \<^verbatim>\<open>range\<close> visits
  the entries, which Go leaves open. Instants and durations are integers
  (nanoseconds). The fields \<^verbatim>\<open>timeout\<close> and \<^verbatim>\<open>servers\<close> of the
  registry carry the prefix \<open>reg_\<close>, since the discovery has fields of the
  same names.
\<close>

record ServerItem =
  Addr :: string
  start :: int

record ZRegistry =
  reg_timeout :: int
  reg_servers :: "(string \<times> ServerItem) list"

definition New :: "int \<Rightarrow> ZRegistry" where
  "New timeout0 = \<lparr>reg_timeout = timeout0, reg_servers = []\<rparr>"

text \<open>
  \<^verbatim>\<open>putServer\<close>; \<open>now\<close> is the reading of \<^verbatim>\<open>time.Now()\<close>.
\<close>

definition putServer :: "ZRegistry \<Rightarrow> string \<Rightarrow> int \<Rightarrow> ZRegistry" where
  "putServer r addr now =
     (case map_of (reg_servers r) addr of
        None \<Rightarrow> r\<lparr>reg_servers := AList.update addr \<lparr>Addr = addr, start = now\<rparr> (reg_servers r)\<rparr>
      | Some s \<Rightarrow> r\<lparr>reg_servers := AList.update addr (s\<lparr>start := now\<rparr>) (reg_servers r)\<rparr>)"

text \<open>
  The loop of \<^verbatim>\<open>aliveServers\<close> over the entries \<open>es\<close> of the map:
  \<open>Now i\<close> is what \<^verbatim>\<open>time.Now()\<close> returns in the iteration numbered
  \<open>i\<close>, \<open>alive\<close> is the slice built so far and \<open>m\<close> the map, from which
  the loop deletes.
\<close>

fun range_servers ::
  "int \<Rightarrow> (nat \<Rightarrow> int) \<Rightarrow> nat \<Rightarrow> (string \<times> ServerItem) list \<Rightarrow> string list \<Rightarrow>
     (string \<times> ServerItem) list \<Rightarrow> string list \<times> (string \<times> ServerItem) list"
where
  "range_servers to Now i [] alive m = (alive, m)"
| "range_servers to Now i ((addr, s) # rest) alive m =
     (if to = 0 \<or> start s + to > Now i
      then range_servers to Now (Suc i) rest (alive @ [addr]) m
      else range_servers to Now (Suc i) rest alive (AList.delete addr m))"

text \<open>
  \<^verbatim>\<open>aliveServers\<close>: the loop, then \<^verbatim>\<open>sort.Strings\<close>.
\<close>

definition aliveServers :: "ZRegistry \<Rightarrow> (nat \<Rightarrow> int) \<Rightarrow> string list \<times> ZRegistry" where
  "aliveServers r Now =
     (let (alive, m) = range_servers (reg_timeout r) Now 0 (reg_servers r) [] (reg_servers r)
      in (sort alive, r\<lparr>reg_servers := m\<rparr>))"

text \<open>
  What \<^verbatim>\<open>ServeHTTP\<close> reads of the request and writes to the response. A
  response on which \<^verbatim>\<open>WriteHeader\<close> is not called has status 200.
\<close>

record Request =
  Method :: string
  X_Zrpc_Server :: "string option"

record ResponseWriter =
  status :: nat
  X_Zrpc_Servers :: "string option"

definition ServeHTTP :: "ZRegistry \<Rightarrow> Request \<Rightarrow> (nat \<Rightarrow> int) \<Rightarrow> ZRegistry \<times> ResponseWriter" where
  "ServeHTTP r req Now =
     (if Method req = ''GET'' then
        (let (alive, r') = aliveServers r Now
         in (r', \<lparr>status = 200, X_Zrpc_Servers = Some (Join alive '','')\<rparr>))
      else if Method req = ''POST'' then
        (let addr = Header_Get (X_Zrpc_Server req) in
         if addr = [] then (r, \<lparr>status = 500, X_Zrpc_Servers = None\<rparr>)
         else (putServer r addr (Now 0), \<lparr>status = 200, X_Zrpc_Servers = None\<rparr>))
      else (r, \<lparr>status = 405, X_Zrpc_Servers = None\<rparr>))"

text \<open>
  The alive predicate in the words of the specification: the timeout is zero,
  or the last heartbeat plus the timeout is after now. \<open>alive_entries\<close> are
  the entries of the map that satisfy it at the instant the listing looks at
  them (the entry at position \<open>j\<close> of \<open>es\<close> at \<open>Now (i + j)\<close>).
\<close>

definition alive :: "int \<Rightarrow> int \<Rightarrow> int \<Rightarrow> bool" where
  "alive to last_seen now \<longleftrightarrow> to = 0 \<or> last_seen + to > now"

definition alive_entries ::
  "int \<Rightarrow> (nat \<Rightarrow> int) \<Rightarrow> nat \<Rightarrow> (string \<times> ServerItem) list \<Rightarrow> (string \<times> ServerItem) list"
where
  "alive_entries to Now i es =
     map snd (filter (\<lambda>(j, addr, s). alive to (start s) (Now j)) (List.enumerate i es))"

text \<open>
  A GET request and a registry with three servers, for the examples.
\<close>

definition get_request :: Request where
  "get_request = \<lparr>Method = ''GET'', X_Zrpc_Server = None\<rparr>"

definition three_servers :: ZRegistry where
  "three_servers =
     \<lparr>reg_timeout = 200,
      reg_servers = [(''s2:80'', \<lparr>Addr = ''s2:80'', start = 0\<rparr>),
                     (''s3:80'', \<lparr>Addr = ''s3:80'', start = 100\<rparr>),
                     (''s1:80'', \<lparr>Addr = ''s1:80'', start = 50\<rparr>)]\<rparr>"

section \<open>Codec\<close>

text \<open>
  The header of a request or response, as in \<^verbatim>\<open>codec.go\<close>.
\<close>

record Header =
  ServiceMethod :: string
  Seq :: "64 word"
  Error :: string

text \<open>
  Modelled from the spec: the gob codec behind the \<^verbatim>\<open>Codec\<close> interface
  (\<^verbatim>\<open>NewGobCodec\<close>) is not among the sources. Following section 4.1, a
  connection carries a sequence of self-delimited frames, every \<^verbatim>\<open>Write\<close>
  produces one header frame followed by one body frame, and every
  \<^verbatim>\<open>ReadHeader\<close> or \<^verbatim>\<open>ReadBody\<close> consumes the next frame. The end of
  the stream is \<^verbatim>\<open>io.EOF\<close>, and a malformed frame (\<open>BadFrame\<close>) is a
  decoding error. Argument and reply values are the strings that encode
  them.

  What \<^verbatim>\<open>ReadHeader\<close> makes of a body frame is the codec's decision and a
  parameter \<open>dec\<close> of the model: the codec either refuses the value
  (\<open>None\<close>, a decoding error) or decodes it into a header, as gob does for
  a value that it can store in a \<^verbatim>\<open>Header\<close> (an empty struct gives the
  zero header). A header frame where a body is asked for is taken as a
  decoding error.
\<close>

datatype frame = HeaderFrame Header | BodyFrame string | BadFrame

definition errDecode :: error where
  "errDecode = ErrorString ''gob: decoding error''"

fun ReadHeader :: "(string \<Rightarrow> Header option) \<Rightarrow> frame list \<Rightarrow> (error + Header) \<times> frame list" where
  "ReadHeader dec [] = (Inl EOF, [])"
| "ReadHeader dec (HeaderFrame h # fs) = (Inr h, fs)"
| "ReadHeader dec (BodyFrame b # fs) =
     (case dec b of None \<Rightarrow> (Inl errDecode, fs) | Some h \<Rightarrow> (Inr h, fs))"
| "ReadHeader dec (BadFrame # fs) = (Inl errDecode, fs)"

fun ReadBody :: "frame list \<Rightarrow> (error + string) \<times> frame list" where
  "ReadBody [] = (Inl EOF, [])"
| "ReadBody (BodyFrame b # fs) = (Inr b, fs)"
| "ReadBody (HeaderFrame h # fs) = (Inl errDecode, fs)"
| "ReadBody (BadFrame # fs) = (Inl errDecode, fs)"

section \<open>Client\<close>

text \<open>
  A channel \<^verbatim>\<open>chan *Call\<close> is known by its identity and its capacity. What
  is sent on the channels is recorded, in order, in the lists of calls that
  the functions below return: a call in such a list has been sent on its own
  \<^verbatim>\<open>Done\<close> channel by \<^verbatim>\<open>call.done()\<close>. The fields \<^verbatim>\<open>Seq\<close>,
  \<^verbatim>\<open>ServiceMethod\<close> and \<^verbatim>\<open>Error\<close> of a call carry the prefix \<open>call_\<close>,
  since the header has fields of the same names.
\<close>

record chan =
  chan_id :: nat
  chan_cap :: nat

record Call =
  call_Seq :: "64 word"
  call_ServiceMethod :: string
  Args :: string
  Reply :: string
  call_Error :: "error option"
  Done :: chan

text \<open>
  The client without its codec, its options and its two mutexes: the
  functions below are the critical sections, taken one at a time. The map
  \<^verbatim>\<open>pending\<close> is an association list with distinct keys, whose order
  stands for the order in which \<^verbatim>\<open>range\<close> visits the entries.
\<close>

record Client =
  header :: Header
  seq :: "64 word"
  pending :: "(64 word \<times> Call) list"
  closing :: bool
  shutdown :: bool

text \<open>
  \<^verbatim>\<open>newClientCodec\<close>: the counter starts at 1.
\<close>

definition newClientCodec :: Client where
  "newClientCodec =
     \<lparr>header = \<lparr>ServiceMethod = [], Seq = 0, Error = []\<rparr>,
      seq = 1, pending = [], closing = False, shutdown = False\<rparr>"

definition Close :: "Client \<Rightarrow> Client \<times> error option" where
  "Close client =
     (if closing client then (client, Some ErrShutdown)
      else (client\<lparr>closing := True\<rparr>, None))"

text \<open>
  \<^verbatim>\<open>registerCall\<close> returns the client, the call (whose \<^verbatim>\<open>Seq\<close> it
  sets) and the error or the sequence number. The counter is a
  \<^verbatim>\<open>uint64\<close>: \<^verbatim>\<open>client.seq++\<close> wraps around.
\<close>

definition registerCall :: "Client \<Rightarrow> Call \<Rightarrow> Client \<times> Call \<times> (error + 64 word)" where
  "registerCall client call =
     (if closing client \<or> shutdown client then (client, call, Inl ErrShutdown)
      else
        (let call' = call\<lparr>call_Seq := seq client\<rparr> in
         (client\<lparr>pending := AList.update (call_Seq call') call' (pending client),
                 seq := seq client + 1\<rparr>,
          call', Inr (call_Seq call'))))"

definition removeCall :: "Client \<Rightarrow> 64 word \<Rightarrow> Client \<times> Call option" where
  "removeCall client s =
     (client\<lparr>pending := AList.delete s (pending client)\<rparr>, map_of (pending client) s)"

text \<open>
  \<^verbatim>\<open>terminateCalls\<close> sets the error of every pending call (the call in
  the map is the one that is sent) and sends it on its channel.
\<close>

definition terminateCalls :: "Client \<Rightarrow> error \<Rightarrow> Client \<times> Call list" where
  "terminateCalls client err =
     (client\<lparr>shutdown := True,
             pending := map (\<lambda>(s, call). (s, call\<lparr>call_Error := Some err\<rparr>)) (pending client)\<rparr>,
      map (\<lambda>(s, call). call\<lparr>call_Error := Some err\<rparr>) (pending client))"

text \<open>
  \<^verbatim>\<open>send\<close>; \<open>wr\<close> is what \<^verbatim>\<open>cc.Write\<close> returns.
\<close>

definition send :: "Client \<Rightarrow> Call \<Rightarrow> error option \<Rightarrow> Client \<times> Call \<times> Call list" where
  "send client call wr =
     (case registerCall client call of
        (client1, call1, Inl err) \<Rightarrow>
          (client1, call1\<lparr>call_Error := Some err\<rparr>, [call1\<lparr>call_Error := Some err\<rparr>])
      | (client1, call1, Inr s) \<Rightarrow>
          (let client2 = client1\<lparr>header :=
                 \<lparr>ServiceMethod = call_ServiceMethod call1, Seq = s, Error = []\<rparr>\<rparr> in
           case wr of
             None \<Rightarrow> (client2, call1, [])
           | Some err \<Rightarrow>
               (case removeCall client2 s of
                  (client3, None) \<Rightarrow> (client3, call1, [])
                | (client3, Some call2) \<Rightarrow>
                    (client3, call2\<lparr>call_Error := Some err\<rparr>, [call2\<lparr>call_Error := Some err\<rparr>]))))"

text \<open>
  \<^verbatim>\<open>Go\<close>; \<open>fresh\<close> is the identity of the channel that \<^verbatim>\<open>make\<close>
  allocates when \<^verbatim>\<open>done\<close> is nil (\<open>None\<close>). \<^verbatim>\<open>log.Panic\<close> panics.
\<close>

definition Go ::
  "Client \<Rightarrow> string \<Rightarrow> string \<Rightarrow> string \<Rightarrow> chan option \<Rightarrow> nat \<Rightarrow> error option \<Rightarrow>
     (Client \<times> Call \<times> Call list) outcome"
where
  "Go client serviceMethod args reply done fresh wr =
     (case (case done of
              None \<Rightarrow> Returns \<lparr>chan_id = fresh, chan_cap = 10\<rparr>
            | Some ch \<Rightarrow>
                if chan_cap ch = 0 then Panics ''rpc client: done channel is unbuffered''
                else Returns ch) of
        Panics msg \<Rightarrow> Panics msg
      | Returns done' \<Rightarrow>
          (let call = \<lparr>call_Seq = 0, call_ServiceMethod = serviceMethod, Args = args,
                         Reply = reply, call_Error = None, Done = done'\<rparr>
           in Returns (send client call wr)))"

text \<open>
  Every change of the counter and of the pending map goes through the
  critical sections of \<^verbatim>\<open>registerCall\<close>, \<^verbatim>\<open>removeCall\<close>,
  \<^verbatim>\<open>terminateCalls\<close> and \<^verbatim>\<open>Close\<close>. A history of a client is a list of
  them; \<open>run_ops\<close> returns the client it leads to and the sequence numbers
  that the successful registrations were given, in order.
\<close>

datatype client_op = RegisterCall Call | RemoveCall "64 word" | TerminateCalls error | CloseClient

fun apply_op :: "client_op \<Rightarrow> Client \<Rightarrow> Client \<times> 64 word list" where
  "apply_op (RegisterCall call) client =
     (case registerCall client call of
        (client', call', Inl err) \<Rightarrow> (client', [])
      | (client', call', Inr s) \<Rightarrow> (client', [s]))"
| "apply_op (RemoveCall s) client = (fst (removeCall client s), [])"
| "apply_op (TerminateCalls err) client = (fst (terminateCalls client err), [])"
| "apply_op CloseClient client = (fst (Close client), [])"

fun run_ops :: "client_op list \<Rightarrow> Client \<Rightarrow> Client \<times> 64 word list" where
  "run_ops [] client = (client, [])"
| "run_ops (op # ops) client =
     (let (client', s) = apply_op op client;
          (client'', ss) = run_ops ops client'
      in (client'', s @ ss))"

text \<open>
  A call, a client with this call pending, and a short history, for the examples.
\<close>

definition a_call :: Call where
  "a_call = \<lparr>call_Seq = 0, call_ServiceMethod = ''Arith.Mul'', Args = ''2,3'', Reply = [],
             call_Error = None, Done = \<lparr>chan_id = 0, chan_cap = 1\<rparr>\<rparr>"

text \<open>
  The loop of \<^verbatim>\<open>receive\<close> over the frames that arrive, with the calls
  sent so far; it returns the error that ends it. \<^verbatim>\<open>fmt.Errorf(h.Error)\<close>
  is taken for an error text without formatting verbs.
\<close>

function receive_loop ::
  "(string \<Rightarrow> Header option) \<Rightarrow> Client \<Rightarrow> frame list \<Rightarrow> Call list \<Rightarrow> Client \<times> error \<times> Call list"
where
  "receive_loop dec client fs sent =
     (case ReadHeader dec fs of
        (Inl err, fs1) \<Rightarrow> (client, err, sent)
      | (Inr h, fs1) \<Rightarrow>
          (case removeCall client (Seq h) of
             (client1, None) \<Rightarrow>
               (case ReadBody fs1 of
                  (Inl err, fs2) \<Rightarrow> (client1, err, sent)
                | (Inr b, fs2) \<Rightarrow> receive_loop dec client1 fs2 sent)
           | (client1, Some call) \<Rightarrow>
               if Error h \<noteq> [] then
                 (let call' = call\<lparr>call_Error := Some (ErrorString (Error h))\<rparr> in
                  case ReadBody fs1 of
                    (Inl err, fs2) \<Rightarrow> (client1, err, sent @ [call'])
                  | (Inr b, fs2) \<Rightarrow> receive_loop dec client1 fs2 (sent @ [call']))
               else
                 (case ReadBody fs1 of
                    (Inl err, fs2) \<Rightarrow>
                      (client1, err,
                       sent @ [call\<lparr>call_Error :=
                                 Some (ErrorString (''reading body '' @ Error_of err))\<rparr>])
                  | (Inr b, fs2) \<Rightarrow> receive_loop dec client1 fs2 (sent @ [call\<lparr>Reply := b\<rparr>]))))"
  by pat_completeness auto
termination
proof (relation "measure (\<lambda>(dec, client, fs, sent). length fs)")
  show "wf (measure (\<lambda>(dec, client, fs, sent). length fs))" by simp
qed (auto elim!: ReadHeader.elims [OF sym] ReadBody.elims [OF sym] split: option.splits)

declare receive_loop.simps [simp del]

text \<open>
  \<^verbatim>\<open>receive\<close>: the loop, then \<^verbatim>\<open>terminateCalls\<close> with its error.
\<close>

definition receive ::
  "(string \<Rightarrow> Header option) \<Rightarrow> Client \<Rightarrow> frame list \<Rightarrow> Client \<times> Call list"
where
  "receive dec client fs =
     (let (client1, err, sent) = receive_loop dec client fs [];
          (client2, sent') = terminateCalls client1 err
      in (client2, sent @ sent'))"

text \<open>
  What holds of the pending map of every client: a key occurs once, and the
  call stored under a key has that key as its \<^verbatim>\<open>Seq\<close>.
\<close>

definition wf_pending :: "Client \<Rightarrow> bool" where
  "wf_pending client \<longleftrightarrow>
     distinct (map fst (pending client)) \<and>
     (\<forall>(s, call) \<in> set (pending client). call_Seq call = s)"

definition one_pending :: Client where
  "one_pending = fst (registerCall newClientCodec a_call)"

definition three_ops :: "client_op list" where
  "three_ops = [RegisterCall a_call, RegisterCall a_call, RemoveCall 1]"

section \<open>Server\<close>

text \<open>
  A service and its methods. The description of a method (\<^verbatim>\<open>methodType\<close>)
  is not among the sources and stays a type parameter: the server only asks
  whether the method exists. \<^verbatim>\<open>sync.Map\<close> is a map.
\<close>

record 'm service =
  name :: string
  methods :: "string \<rightharpoonup> 'm"

record 'm Server =
  serviceMap :: "string \<rightharpoonup> 'm service"

text \<open>
  \<^verbatim>\<open>strings.LastIndex\<close> for a one-byte separator: the index of its last
  occurrence, or -1.
\<close>

fun LastIndex :: "string \<Rightarrow> char \<Rightarrow> int" where
  "LastIndex [] c = - 1"
| "LastIndex (x # xs) c =
     (if LastIndex xs c \<ge> 0 then LastIndex xs c + 1
      else if x = c then 0 else - 1)"

definition findService :: "'m Server \<Rightarrow> string \<Rightarrow> error + ('m service \<times> 'm)" where
  "findService server serviceMethod =
     (let dot = LastIndex serviceMethod (CHR ''.'') in
      if dot < 0 then
        Inl (ErrorString (''rpc server: service/method request ill-formed: '' @ serviceMethod))
      else
        (let serviceName = take (nat dot) serviceMethod;
             methodName = drop (nat dot + 1) serviceMethod
         in case serviceMap server serviceName of
              None \<Rightarrow> Inl (ErrorString (''rpc server: can'' @ [CHR 0x27] @ ''t find service ''
                                         @ serviceName))
            | Some svc \<Rightarrow>
                (case methods svc methodName of
                   None \<Rightarrow> Inl (ErrorString (''rpc server: can'' @ [CHR 0x27] @ ''t find method ''
                                              @ methodName))
                 | Some mtype \<Rightarrow> Inr (svc, mtype))))"

text \<open>
  A request as \<^verbatim>\<open>readRequest\<close> fills it, and what \<^verbatim>\<open>readRequest\<close>
  returns: no request and an error, a request and an error, or a request.
\<close>

record 'm request =
  req_h :: Header
  argv :: string
  req_mtype :: "'m option"
  req_svc :: "'m service option"

datatype 'm read_result =
  NoRequest error | FailedRequest "'m request" error | Request "'m request"

text \<open>
  \<^verbatim>\<open>readRequest\<close> on the frames that arrive; it returns the frames that it
  has not read. When \<^verbatim>\<open>findService\<close> fails it returns before
  \<^verbatim>\<open>ReadBody\<close>.
\<close>

definition readRequest ::
  "(string \<Rightarrow> Header option) \<Rightarrow> 'm Server \<Rightarrow> frame list \<Rightarrow> 'm read_result \<times> frame list"
where
  "readRequest dec server fs =
     (case ReadHeader dec fs of
        (Inl err, fs1) \<Rightarrow> (NoRequest err, fs1)
      | (Inr h, fs1) \<Rightarrow>
          (let req = \<lparr>req_h = h, argv = [], req_mtype = None, req_svc = None\<rparr> in
           case findService server (ServiceMethod h) of
             Inl err \<Rightarrow> (FailedRequest req err, fs1)
           | Inr (svc, mtype) \<Rightarrow>
               (let req = req\<lparr>req_svc := Some svc, req_mtype := Some mtype\<rparr> in
                case ReadBody fs1 of
                  (Inl err, fs2) \<Rightarrow> (FailedRequest req err, fs2)
                | (Inr b, fs2) \<Rightarrow> (Request (req\<lparr>argv := b\<rparr>), fs2))))"

text \<open>
  What the loop of \<^verbatim>\<open>serveCodec\<close> does, in order: it writes a response
  itself (\<^verbatim>\<open>sendResponse\<close> with the placeholder \<^verbatim>\<open>invalidRequest\<close> as
  body), starts \<^verbatim>\<open>handleRequest\<close> for a request, and closes the codec
  when the loop has ended.
\<close>

datatype 'm event = SendResponse Header | HandleRequest "'m request" | CloseCodec

function serveCodec ::
  "(string \<Rightarrow> Header option) \<Rightarrow> 'm Server \<Rightarrow> frame list \<Rightarrow> 'm event list"
where
  "serveCodec dec server fs =
     (case readRequest dec server fs of
        (NoRequest err, fs') \<Rightarrow> [CloseCodec]
      | (FailedRequest req err, fs') \<Rightarrow>
          SendResponse ((req_h req)\<lparr>Error := Error_of err\<rparr>) # serveCodec dec server fs'
      | (Request req, fs') \<Rightarrow> HandleRequest req # serveCodec dec server fs')"
  by pat_completeness auto
termination
proof (relation "measure (\<lambda>(dec, server, fs). length fs)")
  show "wf (measure (\<lambda>(dec, server, fs). length fs))" by simp
qed (auto simp add: readRequest_def Let_def
      elim!: ReadHeader.elims ReadBody.elims
      split: prod.splits sum.splits option.splits)

declare serveCodec.simps [simp del]

text \<open>
  A server with the one service \<^verbatim>\<open>Arith\<close> and its method \<^verbatim>\<open>Mul\<close>,
  and a connection on which a request for an unknown service is followed by
  a request for \<^verbatim>\<open>Arith.Mul\<close>. The body of both requests is a struct with
  the fields \<^verbatim>\<open>Num1\<close> and \<^verbatim>\<open>Num2\<close>. On \<open>empty_body_requests\<close> the body
  of the first request is an empty struct instead.
\<close>

definition arith_server :: "unit Server" where
  "arith_server =
     \<lparr>serviceMap = [''Arith'' \<mapsto> \<lparr>name = ''Arith'', methods = [''Mul'' \<mapsto> ()]\<rparr>]\<rparr>"

definition two_requests :: "frame list" where
  "two_requests =
     [HeaderFrame \<lparr>ServiceMethod = ''Nope.Do'', Seq = 1, Error = []\<rparr>,
      BodyFrame ''{Num1:2,Num2:3}'',
      HeaderFrame \<lparr>ServiceMethod = ''Arith.Mul'', Seq = 2, Error = []\<rparr>,
      BodyFrame ''{Num1:2,Num2:3}'']"

definition empty_body_requests :: "frame list" where
  "empty_body_requests =
     [HeaderFrame \<lparr>ServiceMethod = ''Nope.Do'', Seq = 1, Error = []\<rparr>,
      BodyFrame ''{}'',
      HeaderFrame \<lparr>ServiceMethod = ''Arith.Mul'', Seq = 2, Error = []\<rparr>,
      BodyFrame ''{Num1:2,Num2:3}'']"

text \<open>
  A decoder for these connections: it decodes the empty struct into the
  zero header and refuses the struct of \<^verbatim>\<open>Num1\<close> and \<^verbatim>\<open>Num2\<close>, none of
  whose fields is a field of \<^verbatim>\<open>Header\<close>.
\<close>

definition example_decoder :: "string \<Rightarrow> Header option" where
  "example_decoder b =
     (if b = ''{}'' then Some \<lparr>ServiceMethod = [], Seq = 0, Error = []\<rparr> else None)"

text \<open>
  \<^verbatim>\<open>handleRequest\<close> runs two goroutines that meet on the unbuffered
  channels \<^verbatim>\<open>called\<close> and \<^verbatim>\<open>sent\<close>. Its state is where each of them
  stands, the header \<^verbatim>\<open>req.h\<close> that both write, and the responses written
  to the codec (a header with the reply, \<open>None\<close> for the placeholder
  \<^verbatim>\<open>invalidRequest\<close>).

  The caller is at the \<^verbatim>\<open>select\<close> (\<open>AtSelect\<close>), at \<^verbatim>\<open><-called\<close> of
  the branch for no timeout (\<open>AwaitCalled\<close>), at \<^verbatim>\<open><-sent\<close>
  (\<open>AwaitSent\<close>), in the timer's case before its \<^verbatim>\<open>sendResponse\<close>
  (\<open>TimedOut\<close>), or has returned. The handler goroutine is inside
  \<^verbatim>\<open>req.svc.call\<close> (\<open>Calling\<close>), blocked on \<^verbatim>\<open>called <- struct{}{}\<close>
  (\<open>SendingCalled\<close>), about to write its response (\<open>Responding\<close>),
  blocked on \<^verbatim>\<open>sent <- struct{}{}\<close> (\<open>SendingSent\<close>), or finished.
\<close>

datatype main_pc = AtSelect | AwaitCalled | AwaitSent | TimedOut | Returned

datatype handler_pc = Calling | SendingCalled | Responding | SendingSent | Finished

datatype step_label =
  CallReturns | ReceiveCalled | HandlerResponds | ReceiveSent | TimerFires | TimeoutResponds

record handle_state =
  main :: main_pc
  handler :: handler_pc
  shared_h :: Header
  written :: "(Header \<times> string option) list"

text \<open>
  The state in which \<^verbatim>\<open>handleRequest\<close> starts, for a timeout and the
  header of the request.
\<close>

definition handleRequest :: "int \<Rightarrow> Header \<Rightarrow> handle_state" where
  "handleRequest timeout0 h0 =
     \<lparr>main = (if timeout0 = 0 then AwaitCalled else AtSelect), handler = Calling,
      shared_h = h0, written = []\<rparr>"

text \<open>
  The error text of the timer's case; \<open>String\<close> is \<^verbatim>\<open>time.Duration.String\<close>,
  which \<^verbatim>\<open>%s\<close> prints.
\<close>

definition timeout_message :: "(int \<Rightarrow> string) \<Rightarrow> int \<Rightarrow> string" where
  "timeout_message String timeout0 =
     ''rpc server: request handle timeout: expect within '' @ String timeout0"

text \<open>
  One step of one goroutine, or \<open>None\<close> when the step cannot be taken in
  the state. \<open>res\<close> is what the method returns: its error or its reply.
  A send on \<^verbatim>\<open>called\<close> or \<^verbatim>\<open>sent\<close> and its receive are one step, taken
  only when both sides stand at it; the timer can fire whenever the caller
  is at the \<^verbatim>\<open>select\<close>.
\<close>

fun step ::
  "(int \<Rightarrow> string) \<Rightarrow> int \<Rightarrow> error + string \<Rightarrow> step_label \<Rightarrow> handle_state \<Rightarrow>
     handle_state option"
where
  "step String timeout0 res CallReturns s =
     (if handler s = Calling then Some (s\<lparr>handler := SendingCalled\<rparr>) else None)"
| "step String timeout0 res ReceiveCalled s =
     (if handler s = SendingCalled \<and> (main s = AtSelect \<or> main s = AwaitCalled)
      then Some (s\<lparr>handler := Responding, main := AwaitSent\<rparr>) else None)"
| "step String timeout0 res HandlerResponds s =
     (if handler s = Responding then
        (case res of
           Inl err \<Rightarrow>
             Some (s\<lparr>shared_h := (shared_h s)\<lparr>Error := Error_of err\<rparr>,
                     written := written s @ [((shared_h s)\<lparr>Error := Error_of err\<rparr>, None)],
                     handler := SendingSent\<rparr>)
         | Inr reply \<Rightarrow>
             Some (s\<lparr>written := written s @ [(shared_h s, Some reply)],
                     handler := SendingSent\<rparr>))
      else None)"
| "step String timeout0 res ReceiveSent s =
     (if handler s = SendingSent \<and> main s = AwaitSent
      then Some (s\<lparr>handler := Finished, main := Returned\<rparr>) else None)"
| "step String timeout0 res TimerFires s =
     (if main s = AtSelect then Some (s\<lparr>main := TimedOut\<rparr>) else None)"
| "step String timeout0 res TimeoutResponds s =
     (if main s = TimedOut then
        Some (s\<lparr>shared_h := (shared_h s)\<lparr>Error := timeout_message String timeout0\<rparr>,
                written := written s @
                  [((shared_h s)\<lparr>Error := timeout_message String timeout0\<rparr>, None)],
                main := Returned\<rparr>)
      else None)"

text \<open>
  A schedule is a list of steps; \<open>run_steps\<close> is the state it leads to,
  when every step can be taken.
\<close>

fun run_steps ::
  "(int \<Rightarrow> string) \<Rightarrow> int \<Rightarrow> error + string \<Rightarrow> step_label list \<Rightarrow> handle_state \<Rightarrow>
     handle_state option"
where
  "run_steps String timeout0 res [] s = Some s"
| "run_steps String timeout0 res (l # ls) s =
     (case step String timeout0 res l s of
        None \<Rightarrow> None
      | Some s' \<Rightarrow> run_steps String timeout0 res ls s')"

text \<open>
  Two invariants of the proof: what holds while the caller is at the
  \<^verbatim>\<open>select\<close>, and what holds from the moment the timer has fired.
\<close>

definition before_timer :: "Header \<Rightarrow> handle_state \<Rightarrow> bool" where
  "before_timer h0 s \<longleftrightarrow>
     main s \<noteq> AtSelect \<or>
     (handler s = Calling \<or> handler s = SendingCalled) \<and> written s = [] \<and> shared_h s = h0"

definition after_timer :: "string \<Rightarrow> Header \<Rightarrow> handle_state \<Rightarrow> bool" where
  "after_timer msg h0 s \<longleftrightarrow>
     (handler s = Calling \<or> handler s = SendingCalled) \<and>
     (main s = TimedOut \<and> written s = [] \<and> shared_h s = h0 \<or>
      main s = Returned \<and> written s = [(h0\<lparr>Error := msg\<rparr>, None)])"

text \<open>
  The header of a request, for the examples.
\<close>

definition a_header :: Header where
  "a_header = \<lparr>ServiceMethod = ''Arith.Mul'', Seq = 7, Error = []\<rparr>"

section \<open>Properties\<close>

subsection \<open>Library functions\<close>

lemma Split_not_Nil: "Split s sep \<noteq> []"
  by (induction s) auto

lemma length_Split: "length (Split s sep) = Suc (count_list s sep)"
proof (induction s)
  case Nil
  show ?case by simp
next
  case (Cons c cs)
  have "length (tl (Split cs sep)) = count_list cs sep"
    using Cons.IH by simp
  with Cons.IH show ?case by simp
qed

lemma TrimSpace_Nil: "TrimSpace [] = []"
  by (simp add: TrimSpace_def TrimLeftSpace.simps [of "[]"] TrimRightReversed.simps [of "[]"])

subsection \<open>XDial\<close>

text \<open>
  C9. \<^verbatim>\<open>XDial\<close> returns the wrong-format error for every address whose number
  of \<^verbatim>\<open>@\<close> is not exactly one, whatever the address starts with, and it does
  so without a connection attempt: neither dialer is consulted and the state
  of the network is returned as it was.
\<close>

theorem XDial_wrong_format:
  assumes "count_list rpcAddr (CHR ''@'') \<noteq> 1"
  shows "XDial DialHTTP Dial rpcAddr opts w = (Inl (wrong_format rpcAddr), w)"
proof -
  have "length (Split rpcAddr (CHR ''@'')) \<noteq> 2"
    using assms by (simp add: length_Split)
  then show ?thesis
    by (simp add: XDial_def)
qed

theorem XDial_wrong_format_witness:
  "count_list ''http@10.0.0.1:80@x'' (CHR ''@'') \<noteq> 1 \<and>
   XDial (\<lambda>network addr opts w. (Inr addr, Suc w)) (\<lambda>network addr opts w. (Inr addr, Suc w))
     ''http@10.0.0.1:80@x'' ([] :: unit list) (0 :: nat)
   = (Inl (wrong_format ''http@10.0.0.1:80@x''), 0)"
proof -
  have c: "count_list ''http@10.0.0.1:80@x'' (CHR ''@'') \<noteq> 1"
    by simp
  show ?thesis
    by (intro conjI c XDial_wrong_format [OF c])
qed

subsection \<open>Discovery\<close>

lemma trimmed_servers_eq:
  "trimmed_servers xs acc = acc @ filter (\<lambda>s. s \<noteq> []) (map TrimSpace xs)"
  by (induction xs arbitrary: acc) auto

lemma smod_nonneg: "0 \<le> a \<Longrightarrow> 0 < b \<Longrightarrow> (a::int) smod b = a mod b"
  by (simp add: smod_int_alt_def sgn_if)

lemma wrap_int_id: "- (2 ^ 63) \<le> x \<Longrightarrow> x < 2 ^ 63 \<Longrightarrow> wrap_int x = x"
  by (simp add: wrap_int_def)

lemma Get_RoundRobin:
  assumes "servers d \<noteq> []" "0 \<le> index d" "index d < 2 ^ 63 - 1"
  shows "MultiServersDiscovery_Get d RoundRobinSelect rnd =
           (Returns (Inr (servers d ! (nat (index d) mod length (servers d)))),
            d\<lparr>index := (index d + 1) mod int (length (servers d))\<rparr>)"
proof -
  let ?n = "length (servers d)"
  have n: "0 < int ?n" using assms(1) by simp
  have i: "index d smod int ?n = index d mod int ?n"
    using assms(2) n by (rule smod_nonneg)
  have w: "wrap_int (index d + 1) = index d + 1"
    using assms(2,3) by (intro wrap_int_id) auto
  have j: "(index d + 1) smod int ?n = (index d + 1) mod int ?n"
    using assms(2) n by (intro smod_nonneg) auto
  have k: "nat (index d mod int ?n) = nat (index d) mod ?n"
    using assms(2) by (simp add: nat_mod_distrib)
  have p: "\<not> index d mod int ?n < 0"
    using n by (simp add: not_less)
  show ?thesis
    using assms(1) p by (simp add: MultiServersDiscovery_Get_def Let_def i w j k)
qed

lemma Get_RoundRobin_index:
  assumes "servers d \<noteq> []" "0 \<le> index d" "index d < 2 ^ 63 - 1"
    and "int (length (servers d)) < 2 ^ 63"
  shows "0 \<le> index (snd (MultiServersDiscovery_Get d RoundRobinSelect rnd)) \<and>
         index (snd (MultiServersDiscovery_Get d RoundRobinSelect rnd)) < 2 ^ 63 - 1"
proof -
  have "(index d + 1) mod int (length (servers d)) < int (length (servers d))"
    using assms(1) by simp
  with assms(4) have "(index d + 1) mod int (length (servers d)) < 2 ^ 63 - 1"
    by simp
  moreover have "0 \<le> (index d + 1) mod int (length (servers d))"
    using assms(1) by simp
  ultimately show ?thesis
    by (simp add: Get_RoundRobin [OF assms(1-3)])
qed

lemma consecutive_Gets_eq:
  assumes "servers d \<noteq> []" "0 \<le> index d" "index d < 2 ^ 63 - 1"
    and "int (length (servers d)) < 2 ^ 63"
  shows "consecutive_Gets m d =
           Some (map (\<lambda>j. servers d ! nat ((index d + int j) mod int (length (servers d)))) [0..<m],
                 if m = 0 then d
                 else d\<lparr>index := (index d + int m) mod int (length (servers d))\<rparr>)"
  using assms
proof (induction m arbitrary: d)
  case 0
  show ?case by simp
next
  case (Suc m)
  let ?n = "int (length (servers d))"
  let ?d' = "d\<lparr>index := (index d + 1) mod ?n\<rparr>"
  have n: "0 < ?n" using Suc.prems(1) by simp
  have step: "MultiServersDiscovery_Get d RoundRobinSelect 0 =
                (Returns (Inr (servers d ! (nat (index d) mod length (servers d)))), ?d')"
    using Suc.prems(1-3) by (rule Get_RoundRobin)
  have first: "nat (index d) mod length (servers d) = nat ((index d + int 0) mod ?n)"
    using Suc.prems(2) by (simp add: nat_mod_distrib)
  have d'1: "servers ?d' \<noteq> []" using Suc.prems(1) by simp
  have d'2: "0 \<le> index ?d'" using n by simp
  have "(index d + 1) mod ?n < ?n" using n by simp
  then have d'3: "index ?d' < 2 ^ 63 - 1" using Suc.prems(4) by simp
  have d'4: "int (length (servers ?d')) < 2 ^ 63" using Suc.prems(4) by simp
  have ih: "consecutive_Gets m ?d' =
     Some (map (\<lambda>j. servers d ! nat (((index d + 1) mod ?n + int j) mod ?n)) [0..<m],
           if m = 0 then ?d' else ?d'\<lparr>index := ((index d + 1) mod ?n + int m) mod ?n\<rparr>)"
    using Suc.IH [OF d'1 d'2 d'3 d'4] by simp
  have idx: "((index d + 1) mod ?n + int j) mod ?n = (index d + int (Suc j)) mod ?n" for j
    by (simp add: mod_add_left_eq add.assoc)
  have lst: "map (\<lambda>j. servers d ! nat ((index d + int j) mod ?n)) [0..<Suc m] =
             servers d ! nat ((index d + int 0) mod ?n) #
             map (\<lambda>j. servers d ! nat ((index d + int (Suc j)) mod ?n)) [0..<m]"
    by (simp only: upt_conv_Cons [OF zero_less_Suc] list.map map_Suc_upt [symmetric] map_map o_def)
  have fin: "(if m = 0 then ?d' else ?d'\<lparr>index := ((index d + 1) mod ?n + int m) mod ?n\<rparr>) =
             d\<lparr>index := (index d + int (Suc m)) mod ?n\<rparr>"
    by (simp add: idx)
  have "consecutive_Gets (Suc m) d =
          Some (servers d ! nat ((index d + int 0) mod ?n) #
                map (\<lambda>j. servers d ! nat ((index d + int (Suc j)) mod ?n)) [0..<m],
                d\<lparr>index := (index d + int (Suc m)) mod ?n\<rparr>)"
  proof (cases "m = 0")
    case True
    then show ?thesis
      unfolding consecutive_Gets.simps step first by simp
  next
    case False
    then show ?thesis
      unfolding consecutive_Gets.simps step first by (simp add: ih idx del: of_nat_Suc)
  qed
  then show ?case
    by (simp only: lst nat.simps if_False)
qed

lemma nth_concat_replicate:
  "j < k * length xs \<Longrightarrow> concat (replicate k xs) ! j = xs ! (j mod length xs)"
proof (induction k arbitrary: j)
  case 0
  then show ?case by simp
next
  case (Suc k)
  show ?case
  proof (cases "j < length xs")
    case True
    then show ?thesis by (simp add: nth_append)
  next
    case False
    then have "j - length xs < k * length xs" using Suc.prems by simp
    from Suc.IH [OF this] False show ?thesis
      by (simp add: nth_append le_mod_geq)
  qed
qed

lemma count_list_concat_replicate:
  "count_list (concat (replicate k xs)) a = k * count_list xs a"
  by (induction k) simp_all

lemma count_list_rotate: "count_list (rotate r xs) a = count_list xs a"
proof -
  have "count_list (drop m xs @ take m xs) a = count_list (take m xs @ drop m xs) a" for m
    by (simp only: count_list_append add.commute)
  then show ?thesis
    by (simp add: rotate_drop_take del: count_list_append)
qed

lemma round_robin_cycle:
  assumes "xs \<noteq> []" "0 \<le> i"
  shows "map (\<lambda>j. xs ! nat ((i + int j) mod int (length xs))) [0..<k * length xs] =
         concat (replicate k (rotate (nat i mod length xs) xs))"
proof (rule nth_equalityI)
  show "length (map (\<lambda>j. xs ! nat ((i + int j) mod int (length xs))) [0..<k * length xs]) =
        length (concat (replicate k (rotate (nat i mod length xs) xs)))"
    by (simp add: length_concat sum_list_replicate)
next
  fix j
  assume "j < length (map (\<lambda>j. xs ! nat ((i + int j) mod int (length xs))) [0..<k * length xs])"
  then have j: "j < k * length xs" by simp
  let ?n = "length xs"
  have n: "0 < ?n" using assms(1) by simp
  have "concat (replicate k (rotate (nat i mod ?n) xs)) ! j = rotate (nat i mod ?n) xs ! (j mod ?n)"
    using nth_concat_replicate [of j k "rotate (nat i mod ?n) xs"] j by simp
  also have "\<dots> = xs ! ((nat i mod ?n + j mod ?n) mod ?n)"
    using n by (simp add: nth_rotate)
  also have "(nat i mod ?n + j mod ?n) mod ?n = (nat i + j) mod ?n"
    by (simp add: mod_add_eq)
  also have "(nat i + j) mod ?n = nat ((i + int j) mod int ?n)"
    using assms(2) by (simp add: nat_mod_distrib nat_add_distrib)
  finally show "map (\<lambda>j. xs ! nat ((i + int j) mod int (length xs))) [0..<k * length xs] ! j =
                concat (replicate k (rotate (nat i mod length xs) xs)) ! j"
    using j by simp
qed


lemma count_list_distinct: "distinct xs \<Longrightarrow> a \<in> set xs \<Longrightarrow> count_list xs a = 1"
  by (induction xs) auto

text \<open>
  C7. On a discovery with a non-empty list of \<open>n\<close> addresses (and an index
  that is a non-negative Go \<^verbatim>\<open>int\<close> below the largest one, on a slice of
  representable length), \<^verbatim>\<open>Get(RoundRobinSelect)\<close> returns
  \<^verbatim>\<open>servers[index % n]\<close> and sets \<^verbatim>\<open>index = (index + 1) % n\<close>; \<open>k * n\<close>
  consecutive calls return \<open>k\<close> times the list rotated to start at
  \<^verbatim>\<open>index % n\<close>, so every address is returned \<open>k\<close> times for each of its
  occurrences in the list: exactly \<open>k\<close> times when the addresses are distinct.
\<close>

theorem round_robin_rotation:
  assumes "servers d \<noteq> []" "0 \<le> index d" "index d < 2 ^ 63 - 1"
    and "int (length (servers d)) < 2 ^ 63"
  shows "MultiServersDiscovery_Get d RoundRobinSelect rnd =
           (Returns (Inr (servers d ! (nat (index d) mod length (servers d)))),
            d\<lparr>index := (index d + 1) mod int (length (servers d))\<rparr>) \<and>
         (\<exists>rs d'. consecutive_Gets (k * length (servers d)) d = Some (rs, d') \<and>
            servers d' = servers d \<and>
            rs = concat (replicate k (rotate (nat (index d) mod length (servers d)) (servers d))) \<and>
            (\<forall>a. count_list rs a = k * count_list (servers d) a) \<and>
            (distinct (servers d) \<longrightarrow> (\<forall>a \<in> set (servers d). count_list rs a = k)))"
proof -
  let ?n = "length (servers d)"
  let ?rs = "concat (replicate k (rotate (nat (index d) mod ?n) (servers d)))"
  let ?d' = "if k * ?n = 0 then d else d\<lparr>index := (index d + int (k * ?n)) mod int ?n\<rparr>"
  have one: "MultiServersDiscovery_Get d RoundRobinSelect rnd =
           (Returns (Inr (servers d ! (nat (index d) mod ?n))),
            d\<lparr>index := (index d + 1) mod int ?n\<rparr>)"
    using assms(1-3) by (rule Get_RoundRobin)
  have "consecutive_Gets (k * ?n) d =
          Some (map (\<lambda>j. servers d ! nat ((index d + int j) mod int ?n)) [0..<k * ?n], ?d')"
    using assms by (rule consecutive_Gets_eq)
  then have run: "consecutive_Gets (k * ?n) d = Some (?rs, ?d')"
    by (simp only: round_robin_cycle [OF assms(1,2)])
  have same: "servers ?d' = servers d"
    by simp
  have cnt: "count_list ?rs a = k * count_list (servers d) a" for a
    by (simp only: count_list_concat_replicate count_list_rotate)
  have "count_list ?rs a = k" if "distinct (servers d)" "a \<in> set (servers d)" for a
    using cnt [of a] count_list_distinct [OF that] by simp
  with one run same cnt show ?thesis
    by blast
qed

theorem round_robin_rotation_witness:
  "servers \<lparr>servers = [''s1'', ''s2'', ''s3''], index = 5\<rparr> \<noteq> [] \<and>
   0 \<le> index \<lparr>servers = [''s1'', ''s2'', ''s3''], index = 5\<rparr> \<and>
   index \<lparr>servers = [''s1'', ''s2'', ''s3''], index = 5\<rparr> < 2 ^ 63 - 1 \<and>
   int (length (servers \<lparr>servers = [''s1'', ''s2'', ''s3''], index = 5\<rparr>)) < 2 ^ 63 \<and>
   distinct (servers \<lparr>servers = [''s1'', ''s2'', ''s3''], index = 5\<rparr>) \<and>
   MultiServersDiscovery_Get \<lparr>servers = [''s1'', ''s2'', ''s3''], index = 5\<rparr> RoundRobinSelect 0 =
     (Returns (Inr ''s3''), \<lparr>servers = [''s1'', ''s2'', ''s3''], index = 0\<rparr>) \<and>
   (\<exists>d'. consecutive_Gets 6 \<lparr>servers = [''s1'', ''s2'', ''s3''], index = 5\<rparr> =
      Some ([''s3'', ''s1'', ''s2'', ''s3'', ''s1'', ''s2''], d')) \<and>
   count_list [''s3'', ''s1'', ''s2'', ''s3'', ''s1'', ''s2''] ''s2'' = 2"
proof -
  let ?d = "\<lparr>servers = [''s1'', ''s2'', ''s3''], index = 5\<rparr>"
  have h1: "servers ?d \<noteq> []" by simp
  have h2: "0 \<le> index ?d" by simp
  have h3: "index ?d < 2 ^ 63 - 1" by simp
  have h4: "int (length (servers ?d)) < 2 ^ 63" by simp
  have r: "rotate 2 [''s1'', ''s2'', ''s3''] = [''s3'', ''s1'', ''s2'']"
    by (simp add: rotate_def rotate1_def numeral_2_eq_2)
  have m: "nat 5 mod 3 = (2::nat)" by simp
  have h5: "distinct (servers ?d)" by simp
  from round_robin_rotation [OF h1 h2 h3 h4, of 0 2]
  obtain rs d' where
    a: "MultiServersDiscovery_Get ?d RoundRobinSelect 0 =
          (Returns (Inr (servers ?d ! (nat (index ?d) mod length (servers ?d)))),
           ?d\<lparr>index := (index ?d + 1) mod int (length (servers ?d))\<rparr>)" and
    b: "consecutive_Gets (2 * length (servers ?d)) ?d = Some (rs, d')" and
    c: "rs = concat (replicate 2 (rotate (nat (index ?d) mod length (servers ?d)) (servers ?d)))" and
    e: "\<forall>a. count_list rs a = 2 * count_list (servers ?d) a"
    by blast
  have len: "2 * length (servers ?d) = 6" by simp
  have rs: "rs = [''s3'', ''s1'', ''s2'', ''s3'', ''s1'', ''s2'']"
    using c by (simp add: r m numeral_2_eq_2)
  have a': "MultiServersDiscovery_Get ?d RoundRobinSelect 0 =
              (Returns (Inr ''s3''), \<lparr>servers = [''s1'', ''s2'', ''s3''], index = 0\<rparr>)"
    using a by simp
  have b': "\<exists>d'. consecutive_Gets 6 ?d = Some ([''s3'', ''s1'', ''s2'', ''s3'', ''s1'', ''s2''], d')"
    using b unfolding len rs by (rule exI)
  have e': "count_list [''s3'', ''s1'', ''s2'', ''s3'', ''s1'', ''s2''] ''s2'' = 2"
    using e unfolding rs by simp
  show ?thesis
    by (intro conjI h1 h2 h3 h4 h5 a' b' e')
qed

lemma Refresh_cases:
  "Refresh d now resp now' =
     (if lastUpdate d + timeout d > now then (None, d, 0)
      else case resp of
        Inl err \<Rightarrow> (Some err, d, 1)
      | Inr hdr \<Rightarrow>
          (None,
           d\<lparr>servers := filter (\<lambda>s. s \<noteq> []) (map TrimSpace (Split (Header_Get hdr) (CHR '',''))),
             lastUpdate := now'\<rparr>, 1))"
  by (simp add: Refresh_def trimmed_servers_eq split: sum.splits)

lemma Get_gets: "snd (snd (ZRegistryDiscovery_Get d mode now resp now' rnd)) =
                 snd (snd (Refresh d now resp now'))"
  by (simp add: ZRegistryDiscovery_Get_def split: prod.splits option.splits)

lemma Get_state:
  "lastUpdate (fst (snd (ZRegistryDiscovery_Get d mode now resp now' rnd))) =
     lastUpdate (fst (snd (Refresh d now resp now'))) \<and>
   timeout (fst (snd (ZRegistryDiscovery_Get d mode now resp now' rnd))) =
     timeout (fst (snd (Refresh d now resp now')))"
  by (auto simp add: ZRegistryDiscovery_Get_def MultiServersDiscovery_Get_def Let_def
      split: prod.splits option.splits SelectMode.splits)

text \<open>
  C6, as amended. \<^verbatim>\<open>Refresh\<close> returns nil without a GET while
  \<^verbatim>\<open>lastUpdate + timeout\<close> is after now. Otherwise it sends one GET; when
  the GET fails it returns that error and leaves the list and
  \<^verbatim>\<open>lastUpdate\<close> as they were; when it succeeds the list becomes the
  trimmed, non-empty pieces of the header split at commas and
  \<^verbatim>\<open>lastUpdate\<close> the current time. Two \<^verbatim>\<open>Get\<close> calls less than
  \<^verbatim>\<open>timeout\<close> apart send at most one GET, provided the GET of the first
  call, if it sends one, succeeds, and the clock does not run backwards
  between the two readings of the first call (\<open>now\<close> at the test and
  \<open>now'\<close> at the stamp, \<open>now \<le> now'\<close>).
\<close>

theorem Refresh_within_interval:
  "Refresh d now resp now' =
     (if lastUpdate d + timeout d > now then (None, d, 0)
      else case resp of
        Inl err \<Rightarrow> (Some err, d, 1)
      | Inr hdr \<Rightarrow>
          (None,
           d\<lparr>servers := filter (\<lambda>s. s \<noteq> []) (map TrimSpace (Split (Header_Get hdr) (CHR '',''))),
             lastUpdate := now'\<rparr>, 1)) \<and>
   (now \<le> now' \<and> now2 < now + timeout d \<and> (lastUpdate d + timeout d > now \<or> \<not> isl resp) \<longrightarrow>
      snd (snd (ZRegistryDiscovery_Get d mode now resp now' rnd)) +
      snd (snd (ZRegistryDiscovery_Get (fst (snd (ZRegistryDiscovery_Get d mode now resp now' rnd)))
                  mode2 now2 resp2 now2' rnd2)) \<le> 1)"
proof (intro conjI impI)
  show "Refresh d now resp now' =
     (if lastUpdate d + timeout d > now then (None, d, 0)
      else case resp of
        Inl err \<Rightarrow> (Some err, d, 1)
      | Inr hdr \<Rightarrow>
          (None,
           d\<lparr>servers := filter (\<lambda>s. s \<noteq> []) (map TrimSpace (Split (Header_Get hdr) (CHR '',''))),
             lastUpdate := now'\<rparr>, 1))"
    by (rule Refresh_cases)
next
  let ?d1 = "fst (snd (ZRegistryDiscovery_Get d mode now resp now' rnd))"
  let ?g1 = "snd (snd (ZRegistryDiscovery_Get d mode now resp now' rnd))"
  let ?g2 = "snd (snd (ZRegistryDiscovery_Get ?d1 mode2 now2 resp2 now2' rnd2))"
  assume h: "now \<le> now' \<and> now2 < now + timeout d \<and> (lastUpdate d + timeout d > now \<or> \<not> isl resp)"
  have g1: "?g1 = snd (snd (Refresh d now resp now'))"
    by (rule Get_gets)
  have g2: "?g2 = snd (snd (Refresh ?d1 now2 resp2 now2'))"
    by (rule Get_gets)
  have le1: "snd (snd (Refresh x t r t')) \<le> 1" for x t r t'
    by (simp add: Refresh_def split: sum.splits)
  show "?g1 + ?g2 \<le> 1"
  proof (cases "lastUpdate d + timeout d > now")
    case True
    then have "?g1 = 0" by (simp add: g1 Refresh_def)
    with le1 [of ?d1 now2 resp2 now2'] show ?thesis by (simp add: g2)
  next
    case False
    with h obtain hdr where r: "resp = Inr hdr" by (cases resp) auto
    have "lastUpdate ?d1 = now'" "timeout ?d1 = timeout d"
      using False r by (simp_all add: Get_state Refresh_def)
    with h have "lastUpdate ?d1 + timeout ?d1 > now2" by simp
    then have "?g2 = 0" by (simp add: g2 Refresh_def)
    with le1 [of d now resp now'] show ?thesis by (simp add: g1)
  qed
qed

theorem Refresh_within_interval_witness:
  "(100::int) \<le> 101 \<and> (105::int) < 100 + timeout stale_discovery \<and>
   \<not> isl (Inr (Some spaced_header) :: error + string option) \<and>
   Refresh stale_discovery 100 (Inr (Some spaced_header)) 101 =
     (None, stale_discovery\<lparr>servers := [''s1:80'', ''s2:80''], lastUpdate := 101\<rparr>, 1) \<and>
   snd (snd (ZRegistryDiscovery_Get stale_discovery RoundRobinSelect 100
               (Inr (Some spaced_header)) 101 0)) +
   snd (snd (ZRegistryDiscovery_Get
               (fst (snd (ZRegistryDiscovery_Get stale_discovery RoundRobinSelect 100
                            (Inr (Some spaced_header)) 101 0)))
               RoundRobinSelect 105 registry_down 105 0)) \<le> 1"
proof -
  let ?resp = "Inr (Some spaced_header) :: error + string option"
  have h: "(100::int) \<le> 101 \<and> (105::int) < 100 + timeout stale_discovery \<and>
           (lastUpdate stale_discovery + timeout stale_discovery > 100 \<or> \<not> isl ?resp)"
    by (simp add: stale_discovery_def NewZRegistryDiscovery_def)
  note t = Refresh_within_interval [of stale_discovery 100 ?resp 101 105 RoundRobinSelect 0
             RoundRobinSelect registry_down 105 0]
  have stale: "\<not> lastUpdate stale_discovery + timeout stale_discovery > 100"
    by (simp add: stale_discovery_def NewZRegistryDiscovery_def)
  have pieces: "Split (Header_Get (Some spaced_header)) (CHR '','') =
                  ['' s1:80'' @ [CHR 0xC2, CHR 0xA0], '' s2:80 '', [CHR 0xE3, CHR 0x80, CHR 0x80]]"
    by (simp add: Header_Get_def spaced_header_def)
  have t1: "TrimSpace ('' s1:80'' @ [CHR 0xC2, CHR 0xA0]) = ''s1:80''"
    by code_simp
  have t2: "TrimSpace '' s2:80 '' = ''s2:80''"
    by code_simp
  have t3: "TrimSpace [CHR 0xE3, CHR 0x80, CHR 0x80] = []"
    by code_simp
  have sp: "filter (\<lambda>s. s \<noteq> []) (map TrimSpace (Split (Header_Get (Some spaced_header)) (CHR '','')))
            = [''s1:80'', ''s2:80'']"
    unfolding pieces by (simp only: list.map t1 t2 t3) simp
  have r: "Refresh stale_discovery 100 ?resp 101 =
     (None, stale_discovery\<lparr>servers := [''s1:80'', ''s2:80''], lastUpdate := 101\<rparr>, 1)"
    using t [THEN conjunct1] stale by (simp add: sp)
  have g: "snd (snd (ZRegistryDiscovery_Get stale_discovery RoundRobinSelect 100 ?resp 101 0)) +
   snd (snd (ZRegistryDiscovery_Get
               (fst (snd (ZRegistryDiscovery_Get stale_discovery RoundRobinSelect 100 ?resp 101 0)))
               RoundRobinSelect 105 registry_down 105 0)) \<le> 1"
    using t [THEN conjunct2] h by blast
  from h r g show ?thesis by simp
qed

text \<open>
  C6 as stated fails when the registry cannot be reached: the stale discovery
  sends a GET, keeps its old \<^verbatim>\<open>lastUpdate\<close>, and a second \<^verbatim>\<open>Get\<close> one
  nanosecond later sends another GET.
\<close>

theorem Refresh_failed_GET_counterexample:
  "\<not> lastUpdate stale_discovery + timeout stale_discovery > 100 \<and>
   (101::int) < 100 + timeout stale_discovery \<and>
   ZRegistryDiscovery_Get stale_discovery RoundRobinSelect 100 registry_down 100 0 =
     (Returns (Inl (ErrorString ''dial tcp: connection refused'')), stale_discovery, 1) \<and>
   ZRegistryDiscovery_Get stale_discovery RoundRobinSelect 101 registry_down 101 0 =
     (Returns (Inl (ErrorString ''dial tcp: connection refused'')), stale_discovery, 1) \<and>
   lastUpdate stale_discovery \<noteq> 100"
  by (simp add: ZRegistryDiscovery_Get_def Refresh_def stale_discovery_def registry_down_def
      NewZRegistryDiscovery_def)

text \<open>
  C10. \<^verbatim>\<open>Refresh\<close> returns an error exactly when it sends the GET and the
  GET fails, and the error is the GET's. When the GET succeeds and the
  \<^verbatim>\<open>X-Zrpc-Servers\<close> header is absent or empty, \<^verbatim>\<open>Refresh\<close> succeeds
  with the empty list and the current time as \<^verbatim>\<open>lastUpdate\<close>, and a
  \<^verbatim>\<open>Get\<close> within the next \<^verbatim>\<open>timeout\<close> sends no GET and returns the
  no-available-servers error.
\<close>

theorem Refresh_error_iff_GET_fails:
  "(fst (Refresh d now resp now') = Some e \<longleftrightarrow>
      \<not> lastUpdate d + timeout d > now \<and> resp = Inl e) \<and>
   (\<not> lastUpdate d + timeout d > now \<and> resp = Inr hdr \<and> (hdr = None \<or> hdr = Some []) \<longrightarrow>
      Refresh d now resp now' = (None, d\<lparr>servers := [], lastUpdate := now'\<rparr>, 1) \<and>
      (now2 < now' + timeout d \<longrightarrow>
         ZRegistryDiscovery_Get (d\<lparr>servers := [], lastUpdate := now'\<rparr>) mode now2 resp2 now2' rnd =
           (Returns (Inl (ErrorString ''rpc discovery: no available servers'')),
            d\<lparr>servers := [], lastUpdate := now'\<rparr>, 0)))"
proof (intro conjI impI)
  show "fst (Refresh d now resp now') = Some e \<longleftrightarrow>
          \<not> lastUpdate d + timeout d > now \<and> resp = Inl e"
    by (auto simp add: Refresh_def split: sum.splits)
next
  assume h: "\<not> lastUpdate d + timeout d > now \<and> resp = Inr hdr \<and> (hdr = None \<or> hdr = Some [])"
  then have "Header_Get hdr = []"
    by (auto simp add: Header_Get_def)
  with h show "Refresh d now resp now' = (None, d\<lparr>servers := [], lastUpdate := now'\<rparr>, 1)"
    by (simp add: Refresh_def TrimSpace_Nil)
next
  assume "now2 < now' + timeout d"
  then show "ZRegistryDiscovery_Get (d\<lparr>servers := [], lastUpdate := now'\<rparr>) mode now2 resp2 now2' rnd =
           (Returns (Inl (ErrorString ''rpc discovery: no available servers'')),
            d\<lparr>servers := [], lastUpdate := now'\<rparr>, 0)"
    by (simp add: ZRegistryDiscovery_Get_def Refresh_def MultiServersDiscovery_Get_def)
qed

theorem Refresh_error_iff_GET_fails_witness:
  "\<not> lastUpdate stale_discovery + timeout stale_discovery > 100 \<and>
   (105::int) < 101 + timeout stale_discovery \<and>
   Refresh stale_discovery 100 (Inr None) 101 =
     (None, stale_discovery\<lparr>servers := [], lastUpdate := 101\<rparr>, 1) \<and>
   ZRegistryDiscovery_Get (stale_discovery\<lparr>servers := [], lastUpdate := 101\<rparr>)
       RoundRobinSelect 105 (Inr (Some ''s1:80'')) 105 0 =
     (Returns (Inl (ErrorString ''rpc discovery: no available servers'')),
      stale_discovery\<lparr>servers := [], lastUpdate := 101\<rparr>, 0)"
proof -
  have h1: "\<not> lastUpdate stale_discovery + timeout stale_discovery > 100"
    by (simp add: stale_discovery_def NewZRegistryDiscovery_def)
  have h2: "(105::int) < 101 + timeout stale_discovery"
    by (simp add: stale_discovery_def NewZRegistryDiscovery_def)
  note t = Refresh_error_iff_GET_fails [of stale_discovery 100 "Inr None" 101 _ None 105
             RoundRobinSelect "Inr (Some ''s1:80'')" 105 0, THEN conjunct2]
  from t h1 h2 show ?thesis
    by blast
qed

subsection \<open>Registry\<close>

lemma alive_entries_Nil: "alive_entries to Now i [] = []"
  by (simp add: alive_entries_def)

lemma alive_entries_Cons:
  "alive_entries to Now i ((addr, s) # rest) =
     (if alive to (start s) (Now i) then (addr, s) # alive_entries to Now (Suc i) rest
      else alive_entries to Now (Suc i) rest)"
  by (simp add: alive_entries_def)

lemma alive_entries_subset: "set (alive_entries to Now i es) \<subseteq> set es"
proof (induction es arbitrary: i)
  case Nil
  show ?case by (simp add: alive_entries_Nil)
next
  case (Cons e es)
  obtain addr s where e: "e = (addr, s)" by (cases e)
  from Cons [of "Suc i"] show ?case
    unfolding e alive_entries_Cons by auto
qed

lemma alive_entries_distinct:
  "distinct (map fst es) \<Longrightarrow> distinct (map fst (alive_entries to Now i es))"
proof (induction es arbitrary: i)
  case Nil
  show ?case by (simp add: alive_entries_Nil)
next
  case (Cons e es)
  obtain addr s where e: "e = (addr, s)" by (cases e)
  have "addr \<notin> fst ` set (alive_entries to Now (Suc i) es)"
    using Cons.prems alive_entries_subset [of to Now "Suc i" es] unfolding e by auto
  with Cons show ?case
    unfolding e alive_entries_Cons by simp
qed

lemma alive_entries_const:
  "alive_entries to (\<lambda>_. now) i es = filter (\<lambda>(addr, s). alive to (start s) now) es"
proof (induction es arbitrary: i)
  case Nil
  show ?case by (simp add: alive_entries_Nil)
next
  case (Cons e es)
  obtain addr s where e: "e = (addr, s)" by (cases e)
  from Cons [of "Suc i"] show ?case
    unfolding e alive_entries_Cons by simp
qed

lemma delete_append: "AList.delete k (xs @ ys) = AList.delete k xs @ AList.delete k ys"
  by (simp add: AList.delete_eq)

lemma range_servers_eq:
  assumes "distinct (map fst es)" "fst ` set pre \<inter> fst ` set es = {}"
  shows "range_servers to Now i es acc (pre @ es) =
           (acc @ map fst (alive_entries to Now i es), pre @ alive_entries to Now i es)"
  using assms
proof (induction es arbitrary: i acc pre)
  case Nil
  show ?case by (simp add: alive_entries_Nil)
next
  case (Cons e es)
  obtain addr s where e: "e = (addr, s)" by (cases e)
  have d: "distinct (map fst es)" and n: "addr \<notin> fst ` set es"
    using Cons.prems(1) unfolding e by simp_all
  have p: "addr \<notin> fst ` set pre"
    using Cons.prems(2) unfolding e by auto
  show ?case
  proof (cases "alive to (start s) (Now i)")
    case True
    have "fst ` set (pre @ [(addr, s)]) \<inter> fst ` set es = {}"
      using Cons.prems(2) n unfolding e by auto
    from Cons.IH [OF d this, of "Suc i" "acc @ [addr]"] True show ?thesis
      unfolding e alive_entries_Cons by (simp add: alive_def)
  next
    case False
    have del: "AList.delete addr (pre @ (addr, s) # es) = pre @ es"
      using p n by (simp add: delete_append)
    have "fst ` set pre \<inter> fst ` set es = {}"
      using Cons.prems(2) unfolding e by auto
    from Cons.IH [OF d this, of "Suc i" acc] False show ?thesis
      unfolding e alive_entries_Cons by (simp add: alive_def del del: delete_simps)
  qed
qed

lemma aliveServers_eq:
  assumes "distinct (map fst (reg_servers r))"
  shows "aliveServers r Now =
           (sort (map fst (alive_entries (reg_timeout r) Now 0 (reg_servers r))),
            r\<lparr>reg_servers := alive_entries (reg_timeout r) Now 0 (reg_servers r)\<rparr>)"
  using range_servers_eq [OF assms, of "[]" "reg_timeout r" Now 0 "[]"]
  by (simp add: aliveServers_def)

lemma putServer_distinct:
  "distinct (map fst (reg_servers r)) \<Longrightarrow> distinct (map fst (reg_servers (putServer r addr now)))"
  by (simp add: putServer_def distinct_update split: option.splits)

lemma New_distinct: "distinct (map fst (reg_servers (New timeout0)))"
  by (simp add: New_def)

lemma ServeHTTP_distinct:
  assumes "distinct (map fst (reg_servers r))"
  shows "distinct (map fst (reg_servers (fst (ServeHTTP r req Now))))"
proof -
  have "distinct (map fst (reg_servers (snd (aliveServers r Now))))"
    using assms by (simp add: aliveServers_eq alive_entries_distinct)
  then show ?thesis
    using assms by (auto simp add: ServeHTTP_def Let_def putServer_distinct split: prod.splits)
qed

lemma alive_entries_set:
  "set (alive_entries to Now i es) =
     {e. \<exists>j < length es. es ! j = e \<and> alive to (start (snd e)) (Now (i + j))}"
proof (rule set_eqI, rule iffI)
  fix e
  assume "e \<in> set (alive_entries to Now i es)"
  then obtain k where k: "(k, e) \<in> set (List.enumerate i es)" "alive to (start (snd e)) (Now k)"
    by (auto simp add: alive_entries_def)
  from k(1) have "i \<le> k" "k - i < length es" "es ! (k - i) = e"
    by (auto simp add: in_set_enumerate_eq)
  with k(2) show "e \<in> {e. \<exists>j < length es. es ! j = e \<and> alive to (start (snd e)) (Now (i + j))}"
    by (intro CollectI exI [of _ "k - i"]) simp
next
  fix e
  assume "e \<in> {e. \<exists>j < length es. es ! j = e \<and> alive to (start (snd e)) (Now (i + j))}"
  then obtain j where j: "j < length es" "es ! j = e" "alive to (start (snd e)) (Now (i + j))"
    by blast
  then have "(i + j, e) \<in> set (List.enumerate i es)"
    by (simp add: in_set_enumerate_eq)
  with j(3) have "(i + j, e) \<in> set (filter (\<lambda>(j, addr, s). alive to (start s) (Now j)) (List.enumerate i es))"
    by (cases e) simp
  then show "e \<in> set (alive_entries to Now i es)"
    unfolding alive_entries_def set_map by (rule rev_image_eqI) simp
qed

lemma strictly_sorted_sort: "distinct xs \<Longrightarrow> sorted_wrt (<) (sort xs)"
  by (simp add: strict_sorted_iff)

text \<open>
  C5. For every registry, a GET answers with status 200 and the header
  \<^verbatim>\<open>X-Zrpc-Servers\<close> set to the comma-joined list, in strictly ascending
  order, of exactly the addresses whose entry satisfies the alive predicate
  when the listing looks at it, and the map keeps exactly these entries: the
  others are deleted by the same listing. When the clock stands still at
  \<open>now\<close> during the listing, these are the entries with
  \<^verbatim>\<open>timeout == 0\<close> or \<^verbatim>\<open>start + timeout > now\<close>.
\<close>

theorem registry_GET_lists_alive:
  assumes "distinct (map fst (reg_servers r))" and "Method req = ''GET''"
  shows "ServeHTTP r req Now =
           (r\<lparr>reg_servers := alive_entries (reg_timeout r) Now 0 (reg_servers r)\<rparr>,
            \<lparr>status = 200,
             X_Zrpc_Servers =
               Some (Join (sort (map fst (alive_entries (reg_timeout r) Now 0 (reg_servers r)))) '','')\<rparr>) \<and>
         sorted_wrt (<) (sort (map fst (alive_entries (reg_timeout r) Now 0 (reg_servers r)))) \<and>
         set (sort (map fst (alive_entries (reg_timeout r) Now 0 (reg_servers r)))) =
           {addr. \<exists>i < length (reg_servers r).
                    fst (reg_servers r ! i) = addr \<and>
                    alive (reg_timeout r) (start (snd (reg_servers r ! i))) (Now i)} \<and>
         alive_entries (reg_timeout r) (\<lambda>_. now) 0 (reg_servers r) =
           filter (\<lambda>(addr, s). alive (reg_timeout r) (start s) now) (reg_servers r)"
proof (intro conjI)
  let ?live = "alive_entries (reg_timeout r) Now 0 (reg_servers r)"
  show "ServeHTTP r req Now =
          (r\<lparr>reg_servers := ?live\<rparr>,
           \<lparr>status = 200, X_Zrpc_Servers = Some (Join (sort (map fst ?live)) '','')\<rparr>)"
    using assms(2) by (simp add: ServeHTTP_def aliveServers_eq [OF assms(1)])
  have "distinct (map fst ?live)"
    using assms(1) by (rule alive_entries_distinct)
  then show "sorted_wrt (<) (sort (map fst ?live))"
    by (rule strictly_sorted_sort)
  show "set (sort (map fst ?live)) =
          {addr. \<exists>i < length (reg_servers r).
                   fst (reg_servers r ! i) = addr \<and>
                   alive (reg_timeout r) (start (snd (reg_servers r ! i))) (Now i)}"
    by (auto simp add: alive_entries_set)
  show "alive_entries (reg_timeout r) (\<lambda>_. now) 0 (reg_servers r) =
          filter (\<lambda>(addr, s). alive (reg_timeout r) (start s) now) (reg_servers r)"
    by (rule alive_entries_const)
qed

theorem registry_GET_lists_alive_witness:
  "distinct (map fst (reg_servers three_servers)) \<and> Method get_request = ''GET'' \<and>
   ServeHTTP three_servers get_request (\<lambda>_. 240) =
     (three_servers\<lparr>reg_servers := [(''s3:80'', \<lparr>Addr = ''s3:80'', start = 100\<rparr>),
                                    (''s1:80'', \<lparr>Addr = ''s1:80'', start = 50\<rparr>)]\<rparr>,
      \<lparr>status = 200, X_Zrpc_Servers = Some ''s1:80,s3:80''\<rparr>)"
proof -
  have h1: "distinct (map fst (reg_servers three_servers))"
    by (simp add: three_servers_def)
  have h2: "Method get_request = ''GET''"
    by (simp add: get_request_def)
  have live: "alive_entries (reg_timeout three_servers) (\<lambda>_. 240) 0 (reg_servers three_servers) =
                [(''s3:80'', \<lparr>Addr = ''s3:80'', start = 100\<rparr>),
                 (''s1:80'', \<lparr>Addr = ''s1:80'', start = 50\<rparr>)]"
    by (simp add: three_servers_def alive_entries_Cons alive_entries_Nil alive_def)
  have srt: "sort [''s3:80'', ''s1:80''] = [''s1:80'', ''s3:80'']"
    by code_simp
  from registry_GET_lists_alive [OF h1 h2, of "\<lambda>_. 240", THEN conjunct1]
  have "ServeHTTP three_servers get_request (\<lambda>_. 240) =
     (three_servers\<lparr>reg_servers := [(''s3:80'', \<lparr>Addr = ''s3:80'', start = 100\<rparr>),
                                    (''s1:80'', \<lparr>Addr = ''s1:80'', start = 50\<rparr>)]\<rparr>,
      \<lparr>status = 200, X_Zrpc_Servers = Some ''s1:80,s3:80''\<rparr>)"
    unfolding live by (simp add: srt)
  with h1 h2 show ?thesis by blast
qed

subsection \<open>Client\<close>

text \<open>
  C8. \<^verbatim>\<open>Go\<close> with a nil \<^verbatim>\<open>done\<close> returns, and the call it returns has
  as its \<^verbatim>\<open>Done\<close> the newly made channel of capacity 10; \<^verbatim>\<open>Go\<close> panics
  exactly when \<^verbatim>\<open>done\<close> is a channel (not nil) of capacity 0.
\<close>

theorem Go_nil_done:
  "(\<exists>client' call sent.
      Go client serviceMethod args reply None fresh wr = Returns (client', call, sent) \<and>
      Done call = \<lparr>chan_id = fresh, chan_cap = 10\<rparr>) \<and>
   ((\<exists>msg. Go client serviceMethod args reply done fresh wr = Panics msg) \<longleftrightarrow>
    (\<exists>ch. done = Some ch \<and> chan_cap ch = 0))"
  by (auto simp add: Go_def send_def registerCall_def removeCall_def Let_def update_conv'
      split: option.splits sum.splits prod.splits)


lemma registerCall_seq:
  "registerCall client call = (client', call', Inr s) \<Longrightarrow>
     s = seq client \<and> call_Seq call' = seq client \<and> seq client' = seq client + 1 \<and>
     map_of (pending client') (seq client) = Some call'"
  by (auto simp add: registerCall_def Let_def update_conv' split: if_splits)

lemma apply_op_seq:
  assumes "apply_op op client = (client', ss)"
  shows "seq client' = seq client + of_nat (length ss)"
    and "\<forall>i < length ss. ss ! i = seq client + of_nat i"
    and "fst ` set (pending client') \<subseteq> fst ` set (pending client) \<union> set ss"
proof -
  have "seq client' = seq client + of_nat (length ss) \<and>
        (\<forall>i < length ss. ss ! i = seq client + of_nat i) \<and>
        fst ` set (pending client') \<subseteq> fst ` set (pending client) \<union> set ss"
  proof (cases op)
    case (RegisterCall call)
    show ?thesis
    proof (cases "closing client \<or> shutdown client")
      case True
      with assms RegisterCall show ?thesis
        by (simp add: registerCall_def)
    next
      case False
      with assms RegisterCall
      have "client' = client\<lparr>pending := AList.update (seq client) (call\<lparr>call_Seq := seq client\<rparr>)
                                             (pending client),
                               seq := seq client + 1\<rparr>" "ss = [seq client]"
        by (simp_all add: registerCall_def Let_def)
      then show ?thesis
        by (simp add: dom_update)
    qed
  next
    case (RemoveCall s)
    with assms have "client' = client\<lparr>pending := AList.delete s (pending client)\<rparr>" "ss = []"
      by (simp_all add: removeCall_def)
    then show ?thesis
      using dom_delete_subset [of s "pending client"] by auto
  next
    case (TerminateCalls err)
    with assms have "seq client' = seq client" "ss = []"
      "map fst (pending client') = map fst (pending client)"
      by (auto simp add: terminateCalls_def case_prod_unfold)
    then show ?thesis
      by (simp flip: set_map)
  next
    case CloseClient
    with assms have "seq client' = seq client" "ss = []" "pending client' = pending client"
      by (auto simp add: Close_def split: if_splits)
    then show ?thesis by simp
  qed
  then show "seq client' = seq client + of_nat (length ss)"
    and "\<forall>i < length ss. ss ! i = seq client + of_nat i"
    and "fst ` set (pending client') \<subseteq> fst ` set (pending client) \<union> set ss"
    by blast+
qed

lemma run_ops_seq:
  assumes "run_ops ops client = (client', ss)"
  shows "seq client' = seq client + of_nat (length ss) \<and>
         (\<forall>i < length ss. ss ! i = seq client + of_nat i) \<and>
         fst ` set (pending client') \<subseteq> fst ` set (pending client) \<union> set ss"
  using assms
proof (induction ops arbitrary: client client' ss)
  case Nil
  then show ?case by simp
next
  case (Cons op ops)
  obtain c1 s where op: "apply_op op client = (c1, s)"
    by (cases "apply_op op client")
  obtain c2 ss2 where rest: "run_ops ops c1 = (c2, ss2)"
    by (cases "run_ops ops c1")
  from Cons.prems op rest have eq: "client' = c2" "ss = s @ ss2"
    by simp_all
  note a = apply_op_seq [OF op]
  note b = Cons.IH [OF rest]
  have 1: "seq client' = seq client + of_nat (length ss)"
    using a(1) b unfolding eq by simp
  have 2: "ss ! i = seq client + of_nat i" if "i < length ss" for i
  proof (cases "i < length s")
    case True
    with a(2) show ?thesis unfolding eq by (simp add: nth_append)
  next
    case False
    then have "i - length s < length ss2" using that unfolding eq by simp
    with b have "ss2 ! (i - length s) = seq c1 + of_nat (i - length s)" by blast
    also have "\<dots> = seq client + (of_nat (length s) + of_nat (i - length s))"
      using a(1) by simp
    also have "of_nat (length s) + of_nat (i - length s) = (of_nat i :: 64 word)"
      using False by (simp flip: of_nat_add)
    finally show ?thesis using False unfolding eq by (simp add: nth_append)
  qed
  have "fst ` set (pending c2) \<subseteq> fst ` set (pending c1) \<union> set ss2"
    using b by blast
  with a(3) have 3: "fst ` set (pending client') \<subseteq> fst ` set (pending client) \<union> set ss"
    unfolding eq set_append by blast
  from 1 2 3 show ?case by blast
qed

lemma unat_one_plus:
  assumes "n < 2 ^ 64 - 1"
  shows "unat (1 + of_nat n :: 64 word) = Suc n"
proof -
  have "(1 + of_nat n :: 64 word) = of_nat (Suc n)" by simp
  then have "unat (1 + of_nat n :: 64 word) = Suc n mod 2 ^ 64"
    by (simp only: unat_of_nat) simp
  with assms show ?thesis by simp
qed

text \<open>
  C3, as amended. The counter of a new client is 1; a successful
  \<^verbatim>\<open>registerCall\<close> gives the call the current counter and adds one to it.
  In every history of a client with fewer than \<open>2 ^ 64 - 1\<close> successful
  registrations, the sequence numbers given are strictly increasing in the
  order of registration, and every key of the pending map is below the
  counter.
\<close>

theorem seq_monotone_until_wrap:
  assumes "run_ops ops newClientCodec = (client, ss)" and "length ss < 2 ^ 64 - 1"
  shows "seq newClientCodec = 1 \<and>
         (\<forall>c call c' call' s. registerCall c call = (c', call', Inr s) \<longrightarrow>
            s = seq c \<and> call_Seq call' = seq c \<and> seq c' = seq c + 1) \<and>
         sorted_wrt (<) ss \<and>
         (\<forall>k \<in> fst ` set (pending client). k < seq client)"
proof -
  have init: "seq newClientCodec = 1" "pending newClientCodec = []"
    by (simp_all add: newClientCodec_def)
  note r = run_ops_seq [OF assms(1), unfolded init]
  have nth: "unat (ss ! i) = Suc i" if "i < length ss" for i
    using r that assms(2) by (simp add: unat_one_plus)
  have cnt: "unat (seq client) = Suc (length ss)"
    using r assms(2) by (simp add: unat_one_plus)
  have srt: "sorted_wrt (<) ss"
    unfolding sorted_wrt_iff_nth_less by (simp add: word_less_nat_alt nth)
  have keys: "k < seq client" if "k \<in> fst ` set (pending client)" for k
  proof -
    from that r have "k \<in> set ss" by auto
    then obtain i where "i < length ss" "ss ! i = k"
      by (auto simp add: in_set_conv_nth)
    with nth [of i] cnt show ?thesis
      by (simp add: word_less_nat_alt)
  qed
  from init(1) srt keys registerCall_seq show ?thesis
    by blast
qed


theorem seq_monotone_until_wrap_witness:
  "snd (run_ops three_ops newClientCodec) = [1, 2] \<and>
   length (snd (run_ops three_ops newClientCodec)) < 2 ^ 64 - 1 \<and>
   sorted_wrt (<) (snd (run_ops three_ops newClientCodec)) \<and>
   map fst (pending (fst (run_ops three_ops newClientCodec))) = [2] \<and>
   2 < seq (fst (run_ops three_ops newClientCodec))"
proof -
  have v: "snd (run_ops three_ops newClientCodec) = [1, 2]"
    by (simp add: three_ops_def newClientCodec_def registerCall_def removeCall_def Let_def)
  have k: "map fst (pending (fst (run_ops three_ops newClientCodec))) = [2]"
    by (simp add: three_ops_def newClientCodec_def registerCall_def removeCall_def Let_def a_call_def)
  have h1: "run_ops three_ops newClientCodec =
              (fst (run_ops three_ops newClientCodec), snd (run_ops three_ops newClientCodec))"
    by simp
  have h2: "length (snd (run_ops three_ops newClientCodec)) < 2 ^ 64 - 1"
    unfolding v by simp
  note t = seq_monotone_until_wrap [OF h1 h2]
  from t have s: "sorted_wrt (<) (snd (run_ops three_ops newClientCodec))"
    by blast
  have "2 \<in> fst ` set (pending (fst (run_ops three_ops newClientCodec)))"
    using k by (simp flip: set_map)
  with t have b: "2 < seq (fst (run_ops three_ops newClientCodec))"
    by blast
  from v h2 s k b show ?thesis
    by (intro conjI)
qed

lemma run_ops_append:
  "run_ops (xs @ ys) client =
     (let (client', s) = run_ops xs client;
          (client'', ss) = run_ops ys client'
      in (client'', s @ ss))"
  by (induction xs arbitrary: client) (simp_all add: case_prod_unfold Let_def)

lemma run_registrations:
  assumes "\<not> closing client" "\<not> shutdown client"
  shows "length (snd (run_ops (replicate n (RegisterCall call)) client)) = n \<and>
         \<not> closing (fst (run_ops (replicate n (RegisterCall call)) client)) \<and>
         \<not> shutdown (fst (run_ops (replicate n (RegisterCall call)) client))"
  using assms
proof (induction n arbitrary: client)
  case 0
  then show ?case by simp
next
  case (Suc n)
  let ?c1 = "client\<lparr>pending := AList.update (seq client) (call\<lparr>call_Seq := seq client\<rparr>)
                                   (pending client),
                     seq := seq client + 1\<rparr>"
  have op: "apply_op (RegisterCall call) client = (?c1, [seq client])"
    using Suc.prems by (simp add: registerCall_def Let_def)
  have "\<not> closing ?c1" "\<not> shutdown ?c1"
    using Suc.prems by simp_all
  from Suc.IH [OF this] show ?case
    by (simp add: op case_prod_unfold Let_def del: apply_op.simps)
qed

lemma run_registrations_seq:
  "seq (fst (run_ops (replicate n (RegisterCall call)) newClientCodec)) = 1 + of_nat n"
  "i < n \<Longrightarrow> snd (run_ops (replicate n (RegisterCall call)) newClientCodec) ! i = 1 + of_nat i"
proof -
  let ?r = "run_ops (replicate n (RegisterCall call)) newClientCodec"
  have init: "seq newClientCodec = 1" "\<not> closing newClientCodec" "\<not> shutdown newClientCodec"
    by (simp_all add: newClientCodec_def)
  have len: "length (snd ?r) = n"
    using run_registrations [OF init(2,3)] by blast
  have r: "?r = (fst ?r, snd ?r)" by simp
  note s = run_ops_seq [OF r, unfolded init(1) len]
  from s show "seq (fst ?r) = 1 + of_nat n" by blast
  from s show "i < n \<Longrightarrow> snd ?r ! i = 1 + of_nat i" by blast
qed

lemma last_registration_pending:
  "(1 + of_nat n :: 64 word) \<in>
     fst ` set (pending (fst (run_ops (replicate (Suc n) (RegisterCall call)) newClientCodec)))"
proof -
  let ?c1 = "fst (run_ops (replicate n (RegisterCall call)) newClientCodec)"
  have init: "\<not> closing newClientCodec" "\<not> shutdown newClientCodec"
    by (simp_all add: newClientCodec_def)
  have open1: "\<not> closing ?c1" "\<not> shutdown ?c1"
    using run_registrations [OF init] by blast+
  have sq: "seq ?c1 = 1 + of_nat n"
    by (rule run_registrations_seq)
  have "replicate (Suc n) (RegisterCall call) = replicate n (RegisterCall call) @ [RegisterCall call]"
    by (simp add: replicate_append_same)
  then have "fst (run_ops (replicate (Suc n) (RegisterCall call)) newClientCodec) =
             fst (registerCall ?c1 call)"
    using open1 by (simp only: run_ops_append) (simp add: case_prod_unfold registerCall_def Let_def)
  also have "fst ` set (pending (fst (registerCall ?c1 call))) =
             {seq ?c1} \<union> fst ` set (pending ?c1)"
    using open1 by (simp add: registerCall_def Let_def dom_update)
  finally show ?thesis
    unfolding sq by simp
qed

text \<open>
  C3 as stated fails once the 64-bit counter wraps around. Of \<open>2 ^ 64\<close>
  registrations on a new client, the last but one is given the largest
  number and the last one is given 0; and after \<open>2 ^ 64 - 1\<close>
  registrations the counter is 0 while the largest number is a key of the
  pending map.
\<close>

theorem seq_wraps_counterexample:
  "snd (run_ops (replicate (2 ^ 64) (RegisterCall a_call)) newClientCodec) ! (2 ^ 64 - 2) =
     (18446744073709551615 :: 64 word) \<and>
   snd (run_ops (replicate (2 ^ 64) (RegisterCall a_call)) newClientCodec) ! (2 ^ 64 - 1) =
     (0 :: 64 word) \<and>
   \<not> (18446744073709551615 :: 64 word) < 0 \<and>
   (18446744073709551615 :: 64 word) \<in>
     fst ` set (pending (fst (run_ops (replicate (2 ^ 64 - 1) (RegisterCall a_call)) newClientCodec))) \<and>
   seq (fst (run_ops (replicate (2 ^ 64 - 1) (RegisterCall a_call)) newClientCodec)) = 0"
proof -
  have a: "snd (run_ops (replicate (2 ^ 64) (RegisterCall a_call)) newClientCodec) ! (2 ^ 64 - 2) =
             (1 + of_nat (2 ^ 64 - 2) :: 64 word)"
    by (rule run_registrations_seq) simp
  have b: "snd (run_ops (replicate (2 ^ 64) (RegisterCall a_call)) newClientCodec) ! (2 ^ 64 - 1) =
             (1 + of_nat (2 ^ 64 - 1) :: 64 word)"
    by (rule run_registrations_seq) simp
  have c: "(1 + of_nat (2 ^ 64 - 2) :: 64 word) \<in>
     fst ` set (pending (fst (run_ops (replicate (Suc (2 ^ 64 - 2)) (RegisterCall a_call)) newClientCodec)))"
    by (rule last_registration_pending)
  have d: "seq (fst (run_ops (replicate (2 ^ 64 - 1) (RegisterCall a_call)) newClientCodec)) =
             1 + of_nat (2 ^ 64 - 1)"
    by (rule run_registrations_seq)
  have v1: "(1 + of_nat (2 ^ 64 - 2) :: 64 word) = 18446744073709551615" by simp
  have v2: "(1 + of_nat (2 ^ 64 - 1) :: 64 word) = 0" by simp
  have v3: "Suc (2 ^ 64 - 2) = 2 ^ 64 - 1" by simp
  have v4: "\<not> (18446744073709551615 :: 64 word) < 0" by simp
  from a b c d v4 show ?thesis
    unfolding v1 v2 v3 by blast
qed


lemma wf_pending_newClientCodec: "wf_pending newClientCodec"
  by (simp add: wf_pending_def newClientCodec_def)

lemma set_update_subset: "set (AList.update k v al) \<subseteq> insert (k, v) (set al)"
  by (induction al) auto

lemma wf_pending_registerCall:
  assumes "wf_pending client"
  shows "wf_pending (fst (registerCall client call))"
proof (cases "closing client \<or> shutdown client")
  case True
  with assms show ?thesis by (simp add: registerCall_def)
next
  case False
  let ?call = "call\<lparr>call_Seq := seq client\<rparr>"
  have p: "pending (fst (registerCall client call)) = AList.update (seq client) ?call (pending client)"
    using False by (simp add: registerCall_def Let_def)
  have "distinct (map fst (AList.update (seq client) ?call (pending client)))"
    using assms by (simp add: wf_pending_def distinct_update)
  moreover have "call_Seq c = s"
    if "(s, c) \<in> set (AList.update (seq client) ?call (pending client))" for s c
    using that set_update_subset [of "seq client" ?call "pending client"] assms
    by (auto simp add: wf_pending_def)
  ultimately show ?thesis
    unfolding wf_pending_def p by blast
qed

lemma wf_pending_removeCall:
  assumes "wf_pending client"
  shows "wf_pending (fst (removeCall client s))"
    and "s \<notin> fst ` set (pending (fst (removeCall client s)))"
    and "set (pending (fst (removeCall client s))) \<subseteq> set (pending client)"
    and "snd (removeCall client s) = Some call \<Longrightarrow> call_Seq call = s"
proof -
  have sub: "set (AList.delete s (pending client)) \<subseteq> set (pending client)"
    by (auto simp add: AList.delete_eq)
  then show "set (pending (fst (removeCall client s))) \<subseteq> set (pending client)"
    by (simp add: removeCall_def)
  show "wf_pending (fst (removeCall client s))"
    using assms sub by (auto simp add: wf_pending_def removeCall_def distinct_delete)
  show "s \<notin> fst ` set (pending (fst (removeCall client s)))"
    by (simp add: removeCall_def delete_notin_dom)
  show "call_Seq call = s" if "snd (removeCall client s) = Some call"
  proof -
    from that have "(s, call) \<in> set (pending client)"
      by (simp add: removeCall_def map_of_SomeD)
    with assms show ?thesis by (auto simp add: wf_pending_def)
  qed
qed

lemma wf_pending_terminateCalls:
  assumes "wf_pending client"
  shows "wf_pending (fst (terminateCalls client err))"
proof -
  let ?p = "map (\<lambda>(s, call). (s, call\<lparr>call_Error := Some err\<rparr>)) (pending client)"
  have keys: "map fst ?p = map fst (pending client)"
    by (induction "pending client") (simp_all add: case_prod_unfold)
  have "distinct (map fst ?p)"
    using assms unfolding keys by (simp add: wf_pending_def)
  moreover have "\<forall>(s, call) \<in> set ?p. call_Seq call = s"
    using assms by (auto simp add: wf_pending_def)
  ultimately show ?thesis
    by (simp add: wf_pending_def terminateCalls_def)
qed

lemma wf_pending_run_ops:
  assumes "wf_pending client"
  shows "wf_pending (fst (run_ops ops client))"
  using assms
proof (induction ops arbitrary: client)
  case Nil
  then show ?case by simp
next
  case (Cons op ops)
  have "wf_pending (fst (apply_op op client))"
  proof (cases op)
    case (RegisterCall call)
    have "fst (apply_op (RegisterCall call) client) = fst (registerCall client call)"
      by (simp split: prod.splits sum.splits)
    with wf_pending_registerCall [OF Cons.prems, of call] show ?thesis
      unfolding RegisterCall by simp
  next
    case (RemoveCall s)
    with wf_pending_removeCall(1) [OF Cons.prems, of s] show ?thesis by simp
  next
    case (TerminateCalls err)
    with wf_pending_terminateCalls [OF Cons.prems, of err] show ?thesis by simp
  next
    case CloseClient
    with Cons.prems show ?thesis
      by (simp add: Close_def wf_pending_def)
  qed
  from Cons.IH [OF this] show ?case
    by (simp add: case_prod_unfold Let_def)
qed

lemma receive_loop_header_error:
  "ReadHeader dec fs = (Inl err, fs1) \<Longrightarrow> receive_loop dec client fs sent = (client, err, sent)"
  by (subst receive_loop.simps) simp

lemma receive_loop_no_call:
  assumes "ReadHeader dec fs = (Inr h, fs1)" and "removeCall client (Seq h) = (client1, None)"
    and "ReadBody fs1 = (rb, fs2)"
  shows "receive_loop dec client fs sent =
           (case rb of Inl err \<Rightarrow> (client1, err, sent)
                     | Inr b \<Rightarrow> receive_loop dec client1 fs2 sent)"
  by (subst receive_loop.simps) (simp only: assms prod.case sum.case option.case)

lemma receive_loop_error_reply:
  assumes "ReadHeader dec fs = (Inr h, fs1)" and "removeCall client (Seq h) = (client1, Some call)"
    and "ReadBody fs1 = (rb, fs2)" and "Error h \<noteq> []"
  shows "receive_loop dec client fs sent =
           (case rb of
              Inl err \<Rightarrow>
                (client1, err, sent @ [call\<lparr>call_Error := Some (ErrorString (Error h))\<rparr>])
            | Inr b \<Rightarrow>
                receive_loop dec client1 fs2
                  (sent @ [call\<lparr>call_Error := Some (ErrorString (Error h))\<rparr>]))"
  by (subst receive_loop.simps)
    (simp only: assms prod.case sum.case option.case if_True Let_def not_False_eq_True)

lemma receive_loop_reply:
  assumes "ReadHeader dec fs = (Inr h, fs1)" and "removeCall client (Seq h) = (client1, Some call)"
    and "ReadBody fs1 = (rb, fs2)" and "Error h = []"
  shows "receive_loop dec client fs sent =
           (case rb of
              Inl err \<Rightarrow>
                (client1, err,
                 sent @ [call\<lparr>call_Error := Some (ErrorString (''reading body '' @ Error_of err))\<rparr>])
            | Inr b \<Rightarrow> receive_loop dec client1 fs2 (sent @ [call\<lparr>Reply := b\<rparr>]))"
  by (subst receive_loop.simps)
    (simp only: assms prod.case sum.case option.case if_False not_True_eq_False simp_thms)

lemma receive_loop_step:
  assumes "ReadHeader dec fs = (Inr h, fs1)" and "ReadBody fs1 = (rb, fs2)"
  shows "\<exists>out.
           (\<forall>x \<in> set out. \<exists>call. snd (removeCall client (Seq h)) = Some call \<and>
                                     call_Seq x = call_Seq call) \<and>
           receive_loop dec client fs sent =
             (case rb of
                Inl err \<Rightarrow> (fst (removeCall client (Seq h)), err, sent @ out)
              | Inr b \<Rightarrow> receive_loop dec (fst (removeCall client (Seq h))) fs2 (sent @ out))"
proof -
  obtain client1 callo where rc: "removeCall client (Seq h) = (client1, callo)"
    by (cases "removeCall client (Seq h)")
  show ?thesis
  proof (cases callo)
    case None
    have "receive_loop dec client fs sent =
            (case rb of Inl err \<Rightarrow> (client1, err, sent @ [])
                      | Inr b \<Rightarrow> receive_loop dec client1 fs2 (sent @ []))"
      using receive_loop_no_call [OF assms(1) rc [unfolded None] assms(2), of sent]
      by (simp only: append_Nil2)
    then show ?thesis
      unfolding rc fst_conv snd_conv by (intro exI [of _ "[]"] conjI) simp_all
  next
    case (Some call)
    note rc' = rc [unfolded Some]
    show ?thesis
    proof (cases "Error h = []")
      case False
      let ?out = "[call\<lparr>call_Error := Some (ErrorString (Error h))\<rparr>]"
      note eq = receive_loop_error_reply [OF assms(1) rc' assms(2) False, of sent]
      have "\<forall>x \<in> set ?out. \<exists>c. Some call = Some c \<and> call_Seq x = call_Seq c"
        by simp
      with eq show ?thesis
        unfolding rc' fst_conv snd_conv by (intro exI [of _ ?out] conjI)
    next
      case True
      note eq = receive_loop_reply [OF assms(1) rc' assms(2) True, of sent]
      show ?thesis
      proof (cases rb)
        case (Inl err)
        let ?out = "[call\<lparr>call_Error := Some (ErrorString (''reading body '' @ Error_of err))\<rparr>]"
        have "\<forall>x \<in> set ?out. \<exists>c. Some call = Some c \<and> call_Seq x = call_Seq c"
          by simp
        moreover have "receive_loop dec client fs sent = (client1, err, sent @ ?out)"
          using eq unfolding Inl by (simp only: sum.case)
        ultimately show ?thesis
          unfolding rc' fst_conv snd_conv Inl sum.case by (intro exI [of _ ?out] conjI)
      next
        case (Inr b)
        let ?out = "[call\<lparr>Reply := b\<rparr>]"
        have "\<forall>x \<in> set ?out. \<exists>c. Some call = Some c \<and> call_Seq x = call_Seq c"
          by simp
        moreover have "receive_loop dec client fs sent = receive_loop dec client1 fs2 (sent @ ?out)"
          using eq unfolding Inr by (simp only: sum.case)
        ultimately show ?thesis
          unfolding rc' fst_conv snd_conv Inr sum.case by (intro exI [of _ ?out] conjI)
      qed
    qed
  qed
qed

lemma receive_loop_inv:
  assumes "wf_pending client" and "receive_loop dec client fs sent = (client1, err, sent1)"
  shows "wf_pending client1 \<and> shutdown client1 = shutdown client \<and>
         closing client1 = closing client \<and>
         fst ` set (pending client1) \<subseteq> fst ` set (pending client) \<and>
         (\<exists>new. sent1 = sent @ new \<and>
                (\<forall>x \<in> set new. call_Seq x \<notin> fst ` set (pending client1)))"
  using assms
proof (induction fs arbitrary: client sent rule: length_induct)
  case (1 fs)
  obtain rh fs1 where rh: "ReadHeader dec fs = (rh, fs1)"
    by (cases "ReadHeader dec fs")
  show ?case
  proof (cases rh)
    case (Inl e)
    from rh [unfolded Inl] have "receive_loop dec client fs sent = (client, e, sent)"
      by (rule receive_loop_header_error)
    with "1.prems"(2) have "client1 = client" "sent1 = sent"
      by simp_all
    with "1.prems"(1) show ?thesis by simp
  next
    case (Inr h)
    let ?c = "fst (removeCall client (Seq h))"
    note wf = wf_pending_removeCall [OF "1.prems"(1), of "Seq h"]
    have same: "shutdown ?c = shutdown client" "closing ?c = closing client"
      by (simp_all add: removeCall_def)
    have keys: "fst ` set (pending ?c) \<subseteq> fst ` set (pending client)"
      using wf(3) by blast
    obtain rb fs2 where rb: "ReadBody fs1 = (rb, fs2)"
      by (cases "ReadBody fs1")
    from receive_loop_step [OF rh [unfolded Inr] rb, of client sent]
    obtain out where
      out: "\<forall>x \<in> set out. \<exists>call. snd (removeCall client (Seq h)) = Some call \<and>
                                     call_Seq x = call_Seq call" and
      eq: "receive_loop dec client fs sent =
             (case rb of
                Inl err \<Rightarrow> (?c, err, sent @ out)
              | Inr b \<Rightarrow> receive_loop dec ?c fs2 (sent @ out))"
      by blast
    have outk: "call_Seq x = Seq h" if "x \<in> set out" for x
    proof -
      from out that obtain call where "snd (removeCall client (Seq h)) = Some call"
        "call_Seq x = call_Seq call" by blast
      with wf(4) [of call] show ?thesis by simp
    qed
    have fresh: "call_Seq x \<notin> fst ` set (pending ?c)" if "x \<in> set out" for x
      using outk [OF that] wf(2) by simp
    show ?thesis
    proof (cases rb)
      case (Inl e)
      from eq [unfolded Inl] "1.prems"(2) have r: "client1 = ?c" "sent1 = sent @ out"
        by simp_all
      have "\<exists>new. sent1 = sent @ new \<and>
              (\<forall>x \<in> set new. call_Seq x \<notin> fst ` set (pending client1))"
        unfolding r using fresh by blast
      with wf(1) same keys show ?thesis
        unfolding r by (intro conjI)
    next
      case (Inr b)
      have l1: "length fs1 < length fs"
        using rh \<open>rh = Inr h\<close>
        by (cases "(dec, fs)" rule: ReadHeader.cases) (auto split: option.splits)
      have l2: "length fs2 < length fs1"
        using rb Inr by (cases fs1 rule: ReadBody.cases) auto
      from l1 l2 have l: "length fs2 < length fs" by simp
      from eq [unfolded Inr] "1.prems"(2)
      have rec: "receive_loop dec ?c fs2 (sent @ out) = (client1, err, sent1)"
        by simp
      from "1.IH" [rule_format, OF l wf(1) rec]
      have ih: "wf_pending client1" "shutdown client1 = shutdown ?c"
        "closing client1 = closing ?c"
        "fst ` set (pending client1) \<subseteq> fst ` set (pending ?c)"
        "\<exists>new. sent1 = (sent @ out) @ new \<and>
               (\<forall>x \<in> set new. call_Seq x \<notin> fst ` set (pending client1))"
        by blast+
      from ih(5) obtain new where new: "sent1 = (sent @ out) @ new"
        "\<forall>x \<in> set new. call_Seq x \<notin> fst ` set (pending client1)"
        by blast
      have "call_Seq x \<notin> fst ` set (pending client1)" if "x \<in> set out" for x
        using fresh [OF that] ih(4) by blast
      with new(2) have "\<forall>x \<in> set (out @ new). call_Seq x \<notin> fst ` set (pending client1)"
        by auto
      moreover have "sent1 = sent @ (out @ new)"
        using new(1) by simp
      ultimately have 5: "\<exists>new. sent1 = sent @ new \<and>
                  (\<forall>x \<in> set new. call_Seq x \<notin> fst ` set (pending client1))"
        by blast
      have 2: "shutdown client1 = shutdown client" using ih(2) same by simp
      have 3: "closing client1 = closing client" using ih(3) same by simp
      have 4: "fst ` set (pending client1) \<subseteq> fst ` set (pending client)"
        using ih(4) keys by blast
      from ih(1) 2 3 4 5 show ?thesis
        by (intro conjI)
    qed
  qed
qed


lemma filter_key_unique:
  assumes "distinct (map fst al)" "(s, v) \<in> set al"
  shows "filter (\<lambda>(k, v). k = s) al = [(s, v)]"
  using assms
proof (induction al)
  case Nil
  then show ?case by simp
next
  case (Cons e al)
  obtain k w where e: "e = (k, w)" by (cases e)
  show ?case
  proof (cases "k = s")
    case True
    have "s \<notin> fst ` set al" using Cons.prems(1) unfolding e True by simp
    then have none: "filter (\<lambda>(k, v). k = s) al = []"
      by (force simp add: filter_empty_conv)
    from Cons.prems(2) \<open>s \<notin> fst ` set al\<close> have "w = v"
      unfolding e True by (auto simp add: image_iff)
    with none show ?thesis unfolding e True by simp
  next
    case False
    with Cons show ?thesis unfolding e by simp
  qed
qed

lemma registerCall_after_shutdown:
  "shutdown client \<Longrightarrow> registerCall client call = (client, call, Inl ErrShutdown)"
  by (simp add: registerCall_def)

text \<open>
  C4, as amended. When the receive loop ends, with the error \<open>err\<close> of the
  codec, \<^verbatim>\<open>terminateCalls\<close> sets \<^verbatim>\<open>shutdown\<close>; every call still pending
  is sent on its channel exactly once in all of \<^verbatim>\<open>receive\<close>, with
  \<open>err\<close> as its error; and every later \<^verbatim>\<open>registerCall\<close> returns
  \<^verbatim>\<open>ErrShutdown\<close>.
\<close>

theorem receive_terminates_calls:
  assumes "wf_pending client"
  shows "\<exists>client1 err sent1.
           receive_loop dec client fs [] = (client1, err, sent1) \<and>
           receive dec client fs =
             (client1\<lparr>shutdown := True,
                      pending := map (\<lambda>(s, call). (s, call\<lparr>call_Error := Some err\<rparr>))
                                   (pending client1)\<rparr>,
              sent1 @ map (\<lambda>(s, call). call\<lparr>call_Error := Some err\<rparr>) (pending client1)) \<and>
           (\<forall>(s, call) \<in> set (pending client1).
              filter (\<lambda>x. call_Seq x = s) (snd (receive dec client fs)) =
                [call\<lparr>call_Error := Some err\<rparr>]) \<and>
           (\<forall>call. registerCall (fst (receive dec client fs)) call =
                     (fst (receive dec client fs), call, Inl ErrShutdown))"
proof -
  obtain client1 err sent1 where loop: "receive_loop dec client fs [] = (client1, err, sent1)"
    by (cases "receive_loop dec client fs []") auto
  let ?done = "\<lambda>(s, call). call\<lparr>call_Error := Some err\<rparr>"
  let ?client2 = "client1\<lparr>shutdown := True,
                    pending := map (\<lambda>(s, call). (s, call\<lparr>call_Error := Some err\<rparr>))
                                 (pending client1)\<rparr>"
  have rcv: "receive dec client fs = (?client2, sent1 @ map ?done (pending client1))"
    by (simp add: receive_def loop terminateCalls_def)
  from receive_loop_inv [OF assms loop]
  have wf: "wf_pending client1"
    and early: "\<forall>x \<in> set sent1. call_Seq x \<notin> fst ` set (pending client1)"
    by auto
  have once: "filter (\<lambda>x. call_Seq x = s) (sent1 @ map ?done (pending client1)) =
                [call\<lparr>call_Error := Some err\<rparr>]"
    if mem: "(s, call) \<in> set (pending client1)" for s call
  proof -
    have "s \<in> fst ` set (pending client1)"
      using mem by (rule rev_image_eqI) simp
    with early have "\<forall>x \<in> set sent1. call_Seq x \<noteq> s"
      by metis
    then have a: "filter (\<lambda>x. call_Seq x = s) sent1 = []"
      by (simp add: filter_empty_conv)
    have key: "call_Seq (?done e) = fst e" if "e \<in> set (pending client1)" for e
      using wf that by (auto simp add: wf_pending_def)
    have "filter (\<lambda>x. call_Seq x = s) (map ?done (pending client1)) =
          map ?done (filter (\<lambda>e. call_Seq (?done e) = s) (pending client1))"
      by (simp add: filter_map o_def)
    also have "filter (\<lambda>e. call_Seq (?done e) = s) (pending client1) =
               filter (\<lambda>(k, v). k = s) (pending client1)"
      by (rule filter_cong) (auto simp add: key simp del: split_paired_All)
    also have "\<dots> = [(s, call)]"
      using wf mem by (intro filter_key_unique) (simp_all add: wf_pending_def)
    finally show ?thesis
      using a by simp
  qed
  have reg: "registerCall ?client2 call = (?client2, call, Inl ErrShutdown)" for call
    by (rule registerCall_after_shutdown) simp
  from loop rcv once reg show ?thesis
    unfolding rcv fst_conv snd_conv by blast
qed

theorem receive_terminates_calls_witness:
  "wf_pending one_pending \<and>
   receive_loop (\<lambda>b. None) one_pending [] [] = (one_pending, EOF, []) \<and>
   receive (\<lambda>b. None) one_pending [] =
     (one_pending\<lparr>shutdown := True,
                  pending := [(1, a_call\<lparr>call_Seq := 1, call_Error := Some EOF\<rparr>)]\<rparr>,
      [a_call\<lparr>call_Seq := 1, call_Error := Some EOF\<rparr>]) \<and>
   registerCall (fst (receive (\<lambda>b. None) one_pending [])) a_call =
     (fst (receive (\<lambda>b. None) one_pending []), a_call, Inl ErrShutdown)"
proof -
  have wf: "wf_pending one_pending"
    unfolding one_pending_def by (intro wf_pending_registerCall wf_pending_newClientCodec)
  have p: "pending one_pending = [(1, a_call\<lparr>call_Seq := 1\<rparr>)]"
    by (simp add: one_pending_def registerCall_def newClientCodec_def Let_def)
  have l: "receive_loop (\<lambda>b. None) one_pending [] [] = (one_pending, EOF, [])"
    by (rule receive_loop_header_error) simp
  from receive_terminates_calls [OF wf, of "\<lambda>b. None" "[]"]
  obtain client1 err sent1 where
    a: "receive_loop (\<lambda>b. None) one_pending [] [] = (client1, err, sent1)" and
    b: "receive (\<lambda>b. None) one_pending [] =
          (client1\<lparr>shutdown := True,
                   pending := map (\<lambda>(s, call). (s, call\<lparr>call_Error := Some err\<rparr>))
                                (pending client1)\<rparr>,
           sent1 @ map (\<lambda>(s, call). call\<lparr>call_Error := Some err\<rparr>) (pending client1))" and
    c: "\<forall>call. registerCall (fst (receive (\<lambda>b. None) one_pending [])) call =
                 (fst (receive (\<lambda>b. None) one_pending []), call, Inl ErrShutdown)"
    by blast
  from a l have e: "client1 = one_pending" "err = EOF" "sent1 = []"
    by simp_all
  have b': "receive (\<lambda>b. None) one_pending [] =
     (one_pending\<lparr>shutdown := True,
                  pending := [(1, a_call\<lparr>call_Seq := 1, call_Error := Some EOF\<rparr>)]\<rparr>,
      [a_call\<lparr>call_Seq := 1, call_Error := Some EOF\<rparr>])"
    using b unfolding e by (simp add: p)
  from wf l b' c show ?thesis
    by blast
qed

text \<open>
  C4 as stated fails on the error given to the pending calls: when the
  connection ends, the one pending call is completed with \<^verbatim>\<open>io.EOF\<close>, not
  with \<^verbatim>\<open>ErrShutdown\<close>.
\<close>

theorem receive_error_counterexample:
  "pending one_pending = [(1, a_call\<lparr>call_Seq := 1\<rparr>)] \<and>
   snd (receive (\<lambda>b. None) one_pending []) = [a_call\<lparr>call_Seq := 1, call_Error := Some EOF\<rparr>] \<and>
   call_Error (a_call\<lparr>call_Seq := 1, call_Error := Some EOF\<rparr>) \<noteq> Some ErrShutdown"
proof -
  have p: "pending one_pending = [(1, a_call\<lparr>call_Seq := 1\<rparr>)]"
    by (simp add: one_pending_def registerCall_def newClientCodec_def Let_def)
  have l: "receive_loop (\<lambda>b. None) one_pending [] [] = (one_pending, EOF, [])"
    by (rule receive_loop_header_error) simp
  have "snd (receive (\<lambda>b. None) one_pending []) = [a_call\<lparr>call_Seq := 1, call_Error := Some EOF\<rparr>]"
    by (simp add: receive_def l terminateCalls_def p)
  with p show ?thesis by simp
qed

subsection \<open>Server\<close>

lemma readRequest_unknown:
  assumes "findService server (ServiceMethod h) = Inl err"
  shows "readRequest dec server (HeaderFrame h # fs) =
           (FailedRequest \<lparr>req_h = h, argv = [], req_mtype = None, req_svc = None\<rparr> err, fs)"
  by (simp add: readRequest_def assms)

lemma readRequest_body_as_header:
  "readRequest dec server (BodyFrame b # fs) =
     (case dec b of
        None \<Rightarrow> (NoRequest errDecode, fs)
      | Some h \<Rightarrow> readRequest dec server (HeaderFrame h # fs))"
  by (simp add: readRequest_def split: option.splits)

lemma serveCodec_body_as_header:
  "serveCodec dec server (BodyFrame b # fs) =
     (case dec b of
        None \<Rightarrow> [CloseCodec]
      | Some h \<Rightarrow> serveCodec dec server (HeaderFrame h # fs))"
proof (cases "dec b")
  case None
  then have "readRequest dec server (BodyFrame b # fs) = (NoRequest errDecode, fs)"
    by (simp add: readRequest_body_as_header)
  then have "serveCodec dec server (BodyFrame b # fs) = [CloseCodec]"
    by (subst serveCodec.simps) (simp only: prod.case read_result.case)
  with None show ?thesis by simp
next
  case (Some h)
  then have "readRequest dec server (BodyFrame b # fs) =
               readRequest dec server (HeaderFrame h # fs)"
    by (simp add: readRequest_body_as_header)
  then have "serveCodec dec server (BodyFrame b # fs) =
               serveCodec dec server (HeaderFrame h # fs)"
    by (subst serveCodec.simps, subst (2) serveCodec.simps) (simp only:)
  with Some show ?thesis by simp
qed

lemma serveCodec_request:
  assumes "findService server (ServiceMethod h) = Inr (svc, mtype)"
  shows "serveCodec dec server (HeaderFrame h # BodyFrame b # fs) =
           HandleRequest \<lparr>req_h = h, argv = b, req_mtype = Some mtype, req_svc = Some svc\<rparr>
           # serveCodec dec server fs"
proof -
  have "readRequest dec server (HeaderFrame h # BodyFrame b # fs) =
          (Request \<lparr>req_h = h, argv = b, req_mtype = Some mtype, req_svc = Some svc\<rparr>, fs)"
    by (simp add: readRequest_def assms)
  then show ?thesis
    by (subst serveCodec.simps) (simp only: prod.case read_result.case)
qed

lemma serveCodec_unknown:
  assumes "findService server (ServiceMethod h) = Inl err"
  shows "serveCodec dec server (HeaderFrame h # fs) =
           SendResponse (h\<lparr>Error := Error_of err\<rparr>) # serveCodec dec server fs"
  by (subst serveCodec.simps)
    (simp only: readRequest_unknown [OF assms] prod.case read_result.case request.simps)

lemma serveCodec_Nil: "serveCodec dec server [] = [CloseCodec]"
proof -
  have "readRequest dec server [] = (NoRequest EOF, [])"
    by (simp add: readRequest_def)
  then show ?thesis
    by (subst serveCodec.simps) (simp only: prod.case read_result.case)
qed

lemma findService_Nope:
  "findService arith_server ''Nope.Do'' =
     Inl (ErrorString (''rpc server: can'' @ [CHR 0x27] @ ''t find service Nope''))"
  by (simp add: findService_def arith_server_def)

lemma findService_Arith_Mul:
  "findService arith_server ''Arith.Mul'' =
     Inr (\<lparr>name = ''Arith'', methods = [''Mul'' \<mapsto> ()]\<rparr>, ())"
  by (simp add: findService_def arith_server_def)

lemma findService_empty:
  "findService arith_server [] =
     Inl (ErrorString ''rpc server: service/method request ill-formed: '')"
  by (simp add: findService_def)

text \<open>
  C1. The claim is that after the error response for an unknown service or
  method the serve loop goes on to read and serve the later requests of the
  connection. The server does answer such a request with an error response
  that carries the request's header, hence its sequence number. But
  \<^verbatim>\<open>readRequest\<close> has returned before \<^verbatim>\<open>ReadBody\<close>, so the body of the
  request is still on the connection and the next \<^verbatim>\<open>ReadHeader\<close> meets it.
  When the codec refuses that body as a header, the loop ends there and the
  codec is closed: no later request of the connection is read. When the
  codec decodes the body into a header, the server goes on with that header,
  which the client never sent.
\<close>

theorem unknown_service_body_unread:
  assumes "findService server (ServiceMethod h) = Inl err"
  shows "serveCodec dec server (HeaderFrame h # BodyFrame b # rest) =
           SendResponse (h\<lparr>Error := Error_of err\<rparr>) #
           (case dec b of
              None \<Rightarrow> [CloseCodec]
            | Some h' \<Rightarrow> serveCodec dec server (HeaderFrame h' # rest))"
  by (simp only: serveCodec_unknown [OF assms] serveCodec_body_as_header)

text \<open>
  On the connection with two requests, the server answers the request for
  the unknown service \<^verbatim>\<open>Nope\<close> and closes the codec: the request for
  \<^verbatim>\<open>Arith.Mul\<close> that follows is never handled, although the server handles
  it when it comes first. When the body of the first request is an empty
  struct, the server takes it for a request with the sequence number 0 and
  an empty method name, answers that too, and then handles the request for
  \<^verbatim>\<open>Arith.Mul\<close>.
\<close>

theorem unknown_service_body_unread_witness:
  "serveCodec example_decoder arith_server two_requests =
     [SendResponse \<lparr>ServiceMethod = ''Nope.Do'', Seq = 1,
                    Error = ''rpc server: can'' @ [CHR 0x27] @ ''t find service Nope''\<rparr>,
      CloseCodec] \<and>
   serveCodec example_decoder arith_server (drop 2 two_requests) =
     [HandleRequest
        \<lparr>req_h = \<lparr>ServiceMethod = ''Arith.Mul'', Seq = 2, Error = []\<rparr>,
         argv = ''{Num1:2,Num2:3}'', req_mtype = Some (),
         req_svc = Some \<lparr>name = ''Arith'', methods = [''Mul'' \<mapsto> ()]\<rparr>\<rparr>,
      CloseCodec] \<and>
   serveCodec example_decoder arith_server empty_body_requests =
     [SendResponse \<lparr>ServiceMethod = ''Nope.Do'', Seq = 1,
                    Error = ''rpc server: can'' @ [CHR 0x27] @ ''t find service Nope''\<rparr>,
      SendResponse \<lparr>ServiceMethod = [], Seq = 0,
                    Error = ''rpc server: service/method request ill-formed: ''\<rparr>,
      HandleRequest
        \<lparr>req_h = \<lparr>ServiceMethod = ''Arith.Mul'', Seq = 2, Error = []\<rparr>,
         argv = ''{Num1:2,Num2:3}'', req_mtype = Some (),
         req_svc = Some \<lparr>name = ''Arith'', methods = [''Mul'' \<mapsto> ()]\<rparr>\<rparr>,
      CloseCodec]"
proof -
  have served: "serveCodec example_decoder arith_server
          [HeaderFrame \<lparr>ServiceMethod = ''Arith.Mul'', Seq = 2, Error = []\<rparr>,
           BodyFrame ''{Num1:2,Num2:3}''] =
     [HandleRequest
        \<lparr>req_h = \<lparr>ServiceMethod = ''Arith.Mul'', Seq = 2, Error = []\<rparr>,
         argv = ''{Num1:2,Num2:3}'', req_mtype = Some (),
         req_svc = Some \<lparr>name = ''Arith'', methods = [''Mul'' \<mapsto> ()]\<rparr>\<rparr>,
      CloseCodec]"
    by (subst serveCodec_request [where svc = "\<lparr>name = ''Arith'', methods = [''Mul'' \<mapsto> ()]\<rparr>"
          and mtype = "()"])
      (simp_all add: findService_Arith_Mul serveCodec_Nil)
  have refused: "example_decoder ''{Num1:2,Num2:3}'' = None"
    by (simp add: example_decoder_def)
  have decoded: "example_decoder ''{}'' = Some \<lparr>ServiceMethod = [], Seq = 0, Error = []\<rparr>"
    by (simp add: example_decoder_def)
  have 1: "serveCodec example_decoder arith_server two_requests =
     [SendResponse \<lparr>ServiceMethod = ''Nope.Do'', Seq = 1,
                    Error = ''rpc server: can'' @ [CHR 0x27] @ ''t find service Nope''\<rparr>,
      CloseCodec]"
    unfolding two_requests_def
    by (subst unknown_service_body_unread
          [where err = "ErrorString (''rpc server: can'' @ [CHR 0x27] @ ''t find service Nope'')"])
      (simp_all add: findService_Nope refused)
  have 2: "serveCodec example_decoder arith_server (drop 2 two_requests) =
     [HandleRequest
        \<lparr>req_h = \<lparr>ServiceMethod = ''Arith.Mul'', Seq = 2, Error = []\<rparr>,
         argv = ''{Num1:2,Num2:3}'', req_mtype = Some (),
         req_svc = Some \<lparr>name = ''Arith'', methods = [''Mul'' \<mapsto> ()]\<rparr>\<rparr>,
      CloseCodec]"
    by (simp add: two_requests_def served)
  have zero: "serveCodec example_decoder arith_server
          (HeaderFrame \<lparr>ServiceMethod = [], Seq = 0, Error = []\<rparr> #
           [HeaderFrame \<lparr>ServiceMethod = ''Arith.Mul'', Seq = 2, Error = []\<rparr>,
            BodyFrame ''{Num1:2,Num2:3}'']) =
     [SendResponse \<lparr>ServiceMethod = [], Seq = 0,
                    Error = ''rpc server: service/method request ill-formed: ''\<rparr>,
      HandleRequest
        \<lparr>req_h = \<lparr>ServiceMethod = ''Arith.Mul'', Seq = 2, Error = []\<rparr>,
         argv = ''{Num1:2,Num2:3}'', req_mtype = Some (),
         req_svc = Some \<lparr>name = ''Arith'', methods = [''Mul'' \<mapsto> ()]\<rparr>\<rparr>,
      CloseCodec]"
    by (subst serveCodec_unknown
          [where err = "ErrorString ''rpc server: service/method request ill-formed: ''"])
      (simp_all add: findService_empty served)
  have 3: "serveCodec example_decoder arith_server empty_body_requests =
     [SendResponse \<lparr>ServiceMethod = ''Nope.Do'', Seq = 1,
                    Error = ''rpc server: can'' @ [CHR 0x27] @ ''t find service Nope''\<rparr>,
      SendResponse \<lparr>ServiceMethod = [], Seq = 0,
                    Error = ''rpc server: service/method request ill-formed: ''\<rparr>,
      HandleRequest
        \<lparr>req_h = \<lparr>ServiceMethod = ''Arith.Mul'', Seq = 2, Error = []\<rparr>,
         argv = ''{Num1:2,Num2:3}'', req_mtype = Some (),
         req_svc = Some \<lparr>name = ''Arith'', methods = [''Mul'' \<mapsto> ()]\<rparr>\<rparr>,
      CloseCodec]"
    unfolding empty_body_requests_def
    by (subst unknown_service_body_unread
          [where err = "ErrorString (''rpc server: can'' @ [CHR 0x27] @ ''t find service Nope'')"])
      (simp_all add: findService_Nope decoded zero)
  from 1 2 3 show ?thesis by (intro conjI)
qed

lemma run_steps_append:
  "run_steps String timeout0 res (xs @ ys) s =
     (case run_steps String timeout0 res xs s of
        None \<Rightarrow> None
      | Some s' \<Rightarrow> run_steps String timeout0 res ys s')"
  by (induction xs arbitrary: s) (simp_all split: option.splits)

lemma run_steps_invariant:
  assumes "run_steps String timeout0 res ls s = Some s'" and "P s"
    and "\<And>l s s'. P s \<Longrightarrow> step String timeout0 res l s = Some s' \<Longrightarrow> P s'"
  shows "P s'"
  using assms(1,2)
proof (induction ls arbitrary: s)
  case Nil
  then show ?case by simp
next
  case (Cons l ls)
  from Cons.prems(1) obtain s1 where
    1: "step String timeout0 res l s = Some s1" and
    2: "run_steps String timeout0 res ls s1 = Some s'"
    by (auto split: option.splits)
  from assms(3) [OF Cons.prems(2) 1] have "P s1" .
  with Cons.IH [OF 2] show ?case .
qed

lemma before_timer_init: "before_timer h0 (handleRequest timeout0 h0)"
  by (simp add: before_timer_def handleRequest_def)

lemma before_timer_step:
  assumes "before_timer h0 s" "step String timeout0 res l s = Some s'"
  shows "before_timer h0 s'"
  using assms
  by (cases l) (auto simp add: before_timer_def split: if_splits sum.splits)

lemma after_timer_step:
  assumes "after_timer (timeout_message String timeout0) h0 s"
    and "step String timeout0 res l s = Some s'"
  shows "after_timer (timeout_message String timeout0) h0 s'"
  using assms
  by (cases l) (auto simp add: after_timer_def split: if_splits sum.splits)

lemma timer_step:
  assumes "before_timer h0 s" "step String timeout0 res TimerFires s = Some s'"
  shows "after_timer msg h0 s'"
  using assms
  by (auto simp add: before_timer_def after_timer_def split: if_splits)

lemma after_timer_reached:
  assumes "run_steps String timeout0 res ls (handleRequest timeout0 h0) = Some s"
    and "TimerFires \<in> set ls"
  shows "after_timer (timeout_message String timeout0) h0 s"
proof -
  from assms(2) obtain pre post where ls: "ls = pre @ TimerFires # post"
    by (auto dest: split_list)
  from assms(1) obtain s1 s2 where
    1: "run_steps String timeout0 res pre (handleRequest timeout0 h0) = Some s1" and
    2: "step String timeout0 res TimerFires s1 = Some s2" and
    3: "run_steps String timeout0 res post s2 = Some s"
    unfolding ls run_steps_append by (auto split: option.splits)
  have "before_timer h0 s1"
    using 1 before_timer_init before_timer_step
    by (rule run_steps_invariant [where P = "before_timer h0"])
  then have "after_timer (timeout_message String timeout0) h0 s2"
    using 2 by (rule timer_step)
  with 3 show ?thesis
    using after_timer_step
    by (rule run_steps_invariant [where P = "after_timer (timeout_message String timeout0) h0"])
qed

text \<open>
  C2, as amended. With a timeout \<open>T > 0\<close>, in every schedule in which the
  timer fires (which it can only while the caller is at the \<^verbatim>\<open>select\<close>,
  so before \<^verbatim>\<open>called\<close> is received): the caller writes the error response
  \<^verbatim>\<open>rpc server: request handle timeout: expect within T\<close> and returns
  without a step of the handler; this is the only response ever written for
  the request; the method may still return, but its send on \<^verbatim>\<open>called\<close> is
  never received, so the handler goroutine stays blocked there, never writes
  a response and never reaches \<^verbatim>\<open>sent\<close>.
\<close>

theorem handle_timeout_single_response:
  assumes "0 < timeout0"
    and "run_steps String timeout0 res ls (handleRequest timeout0 h0) = Some s"
    and "TimerFires \<in> set ls"
  shows "(main s = TimedOut \<or> main s = Returned) \<and>
         (handler s = Calling \<or> handler s = SendingCalled) \<and>
         written s =
           (if main s = Returned
            then [(h0\<lparr>Error := ''rpc server: request handle timeout: expect within ''
                                 @ String timeout0\<rparr>, None)]
            else []) \<and>
         (\<exists>s'. run_steps String timeout0 res
                 (ls @ (if main s = Returned then [] else [TimeoutResponds])) (handleRequest timeout0 h0)
               = Some s' \<and> main s' = Returned \<and> handler s' = handler s) \<and>
         step String timeout0 res ReceiveCalled s = None \<and>
         step String timeout0 res HandlerResponds s = None \<and>
         step String timeout0 res ReceiveSent s = None"
proof -
  note a = after_timer_reached [OF assms(2,3), unfolded after_timer_def timeout_message_def]
  from a have m: "main s = TimedOut \<or> main s = Returned" by blast
  from a have h: "handler s = Calling \<or> handler s = SendingCalled" by blast
  from a have w: "written s =
           (if main s = Returned
            then [(h0\<lparr>Error := ''rpc server: request handle timeout: expect within ''
                                 @ String timeout0\<rparr>, None)]
            else [])"
    by auto
  have e: "\<exists>s'. run_steps String timeout0 res
                 (ls @ (if main s = Returned then [] else [TimeoutResponds])) (handleRequest timeout0 h0)
               = Some s' \<and> main s' = Returned \<and> handler s' = handler s"
    using m by (auto simp add: run_steps_append assms(2))
  have n: "step String timeout0 res ReceiveCalled s = None"
    "step String timeout0 res HandlerResponds s = None"
    "step String timeout0 res ReceiveSent s = None"
    using m h by auto
  from m h w e n show ?thesis
    by (intro conjI)
qed

theorem handle_timeout_single_response_witness:
  "(0::int) < 100000000 \<and>
   TimerFires \<in> set [TimerFires, TimeoutResponds, CallReturns] \<and>
   run_steps (\<lambda>_. ''100ms'') 100000000 (Inr ''6'') [TimerFires, TimeoutResponds, CallReturns]
     (handleRequest 100000000 a_header) =
   Some \<lparr>main = Returned, handler = SendingCalled,
          shared_h = a_header\<lparr>Error := ''rpc server: request handle timeout: expect within 100ms''\<rparr>,
          written = [(a_header\<lparr>Error := ''rpc server: request handle timeout: expect within 100ms''\<rparr>,
                      None)]\<rparr> \<and>
   step (\<lambda>_. ''100ms'') 100000000 (Inr ''6'') ReceiveCalled
     \<lparr>main = Returned, handler = SendingCalled,
      shared_h = a_header\<lparr>Error := ''rpc server: request handle timeout: expect within 100ms''\<rparr>,
      written = [(a_header\<lparr>Error := ''rpc server: request handle timeout: expect within 100ms''\<rparr>,
                  None)]\<rparr> = None"
proof -
  let ?s = "\<lparr>main = Returned, handler = SendingCalled,
      shared_h = a_header\<lparr>Error := ''rpc server: request handle timeout: expect within 100ms''\<rparr>,
      written = [(a_header\<lparr>Error := ''rpc server: request handle timeout: expect within 100ms''\<rparr>,
                  None)]\<rparr>"
  have h1: "(0::int) < 100000000" by simp
  have h2: "run_steps (\<lambda>_. ''100ms'') 100000000 (Inr ''6'') [TimerFires, TimeoutResponds, CallReturns]
              (handleRequest 100000000 a_header) = Some ?s"
    by (simp add: handleRequest_def timeout_message_def)
  have h3: "TimerFires \<in> set [TimerFires, TimeoutResponds, CallReturns]" by simp
  from handle_timeout_single_response [OF h1 h2 h3]
  have "step (\<lambda>_. ''100ms'') 100000000 (Inr ''6'') ReceiveCalled ?s = None"
    by blast
  with h1 h2 h3 show ?thesis
    by (intro conjI)
qed

text \<open>
  C2 as stated fails on the handler that may later complete: the channels
  are unbuffered and the caller has returned, so after the timeout response
  the handler goroutine whose method returns stands at its send on
  \<^verbatim>\<open>called\<close>, where no step of either goroutine is possible any more. On
  this request no schedule in which the timer fires lets the handler finish.
\<close>

theorem handler_blocks_counterexample:
  "run_steps (\<lambda>_. ''100ms'') 100000000 (Inr ''6'') [TimerFires, TimeoutResponds, CallReturns]
     (handleRequest 100000000 a_header) =
   Some \<lparr>main = Returned, handler = SendingCalled,
          shared_h = a_header\<lparr>Error := ''rpc server: request handle timeout: expect within 100ms''\<rparr>,
          written = [(a_header\<lparr>Error := ''rpc server: request handle timeout: expect within 100ms''\<rparr>,
                      None)]\<rparr> \<and>
   map (\<lambda>l. step (\<lambda>_. ''100ms'') 100000000 (Inr ''6'') l
          \<lparr>main = Returned, handler = SendingCalled,
           shared_h = a_header\<lparr>Error := ''rpc server: request handle timeout: expect within 100ms''\<rparr>,
           written = [(a_header\<lparr>Error := ''rpc server: request handle timeout: expect within 100ms''\<rparr>,
                       None)]\<rparr>)
     [CallReturns, ReceiveCalled, HandlerResponds, ReceiveSent, TimerFires, TimeoutResponds] =
   [None, None, None, None, None, None] \<and>
   \<not> (\<exists>ls s. run_steps (\<lambda>_. ''100ms'') 100000000 (Inr ''6'') ls
                  (handleRequest 100000000 a_header) = Some s \<and>
               TimerFires \<in> set ls \<and> handler s = Finished)"
proof -
  have 1: "run_steps (\<lambda>_. ''100ms'') 100000000 (Inr ''6'') [TimerFires, TimeoutResponds, CallReturns]
     (handleRequest 100000000 a_header) =
   Some \<lparr>main = Returned, handler = SendingCalled,
          shared_h = a_header\<lparr>Error := ''rpc server: request handle timeout: expect within 100ms''\<rparr>,
          written = [(a_header\<lparr>Error := ''rpc server: request handle timeout: expect within 100ms''\<rparr>,
                      None)]\<rparr>"
    by (simp add: handleRequest_def timeout_message_def)
  have 2: "map (\<lambda>l. step (\<lambda>_. ''100ms'') 100000000 (Inr ''6'') l
          \<lparr>main = Returned, handler = SendingCalled,
           shared_h = a_header\<lparr>Error := ''rpc server: request handle timeout: expect within 100ms''\<rparr>,
           written = [(a_header\<lparr>Error := ''rpc server: request handle timeout: expect within 100ms''\<rparr>,
                       None)]\<rparr>)
     [CallReturns, ReceiveCalled, HandlerResponds, ReceiveSent, TimerFires, TimeoutResponds] =
   [None, None, None, None, None, None]"
    by simp
  have 3: "\<not> (\<exists>ls s. run_steps (\<lambda>_. ''100ms'') 100000000 (Inr ''6'') ls
                  (handleRequest 100000000 a_header) = Some s \<and>
               TimerFires \<in> set ls \<and> handler s = Finished)"
  proof
    assume "\<exists>ls s. run_steps (\<lambda>_. ''100ms'') 100000000 (Inr ''6'') ls
                  (handleRequest 100000000 a_header) = Some s \<and>
               TimerFires \<in> set ls \<and> handler s = Finished"
    then obtain ls s where
      r: "run_steps (\<lambda>_. ''100ms'') 100000000 (Inr ''6'') ls
            (handleRequest 100000000 a_header) = Some s" and
      t: "TimerFires \<in> set ls" and f: "handler s = Finished"
      by blast
    from after_timer_reached [OF r t]
    have "handler s = Calling \<or> handler s = SendingCalled"
      unfolding after_timer_def by blast
    with f show False by simp
  qed
  from 1 2 3 show ?thesis by simp
qed

end
